theory Spec2Isabelle
  imports Complex_Main "HOL-Library.Log_Nat"
begin

section \<open>Double-precision arithmetic\<close>

text \<open>
  The averaging kernel of \<^verbatim>\<open>average_vectors.hpp\<close> is a template over the numeric types
  \<^verbatim>\<open>Stat_\<close>, \<^verbatim>\<open>Weight_\<close> and \<^verbatim>\<open>Output_\<close>. This development fixes all three to the C++ type
  \<^verbatim>\<open>double\<close> (IEEE 754 binary64, round to nearest, ties to even), which is the default
  output type of the allocating overloads. The one place where the library itself picks
  another type is the unweighted entry point, which instantiates \<^verbatim>\<open>Weight_\<close> with
  \<^verbatim>\<open>int\<close>; that instantiation is modelled with integer counters.

  A double is a NaN, a signed infinity, a signed zero, or a nonzero finite number,
  which is kept as the rational number it denotes. The sign flag is \<open>True\<close> for a
  negative value. There is a single NaN: the sign and payload bits of a NaN are not
  modelled, so "bit-identical" below means identical up to the payload of a NaN.
\<close>

datatype double = NaN | Inf bool | Zero bool | Fin rat

definition pow2 :: "int \<Rightarrow> rat" where
  "pow2 e = (if 0 \<le> e then 2 ^ nat e else 1 / 2 ^ nat (- e))"

text \<open>The integer part of the binary logarithm of a positive rational.\<close>

definition flog2 :: "rat \<Rightarrow> int" where
  "flog2 q = (if 1 \<le> q then bitlen \<lfloor>q\<rfloor> - 1 else - bitlen (\<lceil>1 / q\<rceil> - 1))"

text \<open>Rounding a non-negative rational to the nearest integer, ties to the even one.\<close>

definition round_even :: "rat \<Rightarrow> int" where
  "round_even s = (let f = \<lfloor>s\<rfloor>; d = s - of_int f in
     if d < 1 / 2 then f else if 1 / 2 < d then f + 1 else if even f then f else f + 1)"

text \<open>
  Rounding an exact result to binary64. The unit in the last place of \<open>q\<close> is
  \<open>2 ^ e\<close>, with \<open>e\<close> such that the significand \<open>\<bar>q\<bar> / 2 ^ e\<close> has 53 bits, and
  never below \<open>2 ^ - 1074\<close>, the spacing of the subnormal numbers. The significand is
  rounded to an integer; a result of magnitude \<open>2 ^ 1024\<close> or more overflows to an
  infinity, a result that rounds to nothing is a zero with the sign of \<open>q\<close>. An exact
  zero is \<open>+0\<close>, as IEEE 754 requires of a sum or difference in this rounding mode.
\<close>

definition rnd :: "rat \<Rightarrow> double" where
  "rnd q = (if q = 0 then Zero False else
     let e = max (- 1074) (flog2 \<bar>q\<bar> - 52);
         m = round_even (\<bar>q\<bar> / pow2 e);
         r = of_int m * pow2 e
     in if m = 0 then Zero (q < 0)
        else if pow2 1024 \<le> r then Inf (q < 0)
        else Fin (if q < 0 then - r else r))"

text \<open>
  The values of the datatype that are doubles: a finite nonzero number must be one that
  rounding leaves alone.
\<close>

fun is_double :: "double \<Rightarrow> bool" where
  "is_double (Fin q) = (rnd q = Fin q)"
| "is_double _ = True"

fun isnan :: "double \<Rightarrow> bool" where
  "isnan NaN = True"
| "isnan _ = False"

text \<open>The operators \<^verbatim>\<open>+\<close>, \<^verbatim>\<open>*\<close> and \<^verbatim>\<open>/\<close> of C++ on doubles.\<close>

fun dadd :: "double \<Rightarrow> double \<Rightarrow> double" where
  "dadd NaN _ = NaN"
| "dadd _ NaN = NaN"
| "dadd (Inf s) (Inf t) = (if s = t then Inf s else NaN)"
| "dadd (Inf s) _ = Inf s"
| "dadd _ (Inf t) = Inf t"
| "dadd (Zero s) (Zero t) = Zero (s \<and> t)"
| "dadd (Zero s) (Fin b) = Fin b"
| "dadd (Fin a) (Zero t) = Fin a"
| "dadd (Fin a) (Fin b) = rnd (a + b)"

fun dmul :: "double \<Rightarrow> double \<Rightarrow> double" where
  "dmul NaN _ = NaN"
| "dmul _ NaN = NaN"
| "dmul (Inf s) (Inf t) = Inf (s \<noteq> t)"
| "dmul (Inf s) (Zero t) = NaN"
| "dmul (Zero s) (Inf t) = NaN"
| "dmul (Inf s) (Fin b) = Inf (s \<noteq> (b < 0))"
| "dmul (Fin a) (Inf t) = Inf ((a < 0) \<noteq> t)"
| "dmul (Zero s) (Zero t) = Zero (s \<noteq> t)"
| "dmul (Zero s) (Fin b) = Zero (s \<noteq> (b < 0))"
| "dmul (Fin a) (Zero t) = Zero ((a < 0) \<noteq> t)"
| "dmul (Fin a) (Fin b) = rnd (a * b)"

fun ddiv :: "double \<Rightarrow> double \<Rightarrow> double" where
  "ddiv NaN _ = NaN"
| "ddiv _ NaN = NaN"
| "ddiv (Inf s) (Inf t) = NaN"
| "ddiv (Inf s) (Zero t) = Inf (s \<noteq> t)"
| "ddiv (Inf s) (Fin b) = Inf (s \<noteq> (b < 0))"
| "ddiv (Zero s) (Zero t) = NaN"
| "ddiv (Zero s) (Inf t) = Zero (s \<noteq> t)"
| "ddiv (Zero s) (Fin b) = Zero (s \<noteq> (b < 0))"
| "ddiv (Fin a) (Inf t) = Zero ((a < 0) \<noteq> t)"
| "ddiv (Fin a) (Zero t) = Inf ((a < 0) \<noteq> t)"
| "ddiv (Fin a) (Fin b) = rnd (a / b)"

instantiation double :: "{zero, one, plus, times, inverse}"
begin

definition zero_double :: double where "zero_double = Zero False"
definition one_double :: double where "one_double = Fin 1"
definition plus_double :: "double \<Rightarrow> double \<Rightarrow> double" where "plus_double = dadd"
definition times_double :: "double \<Rightarrow> double \<Rightarrow> double" where "times_double = dmul"
definition divide_double :: "double \<Rightarrow> double \<Rightarrow> double" where "divide_double = ddiv"
definition inverse_double :: "double \<Rightarrow> double" where "inverse_double x = ddiv (Fin 1) x"

instance ..

end

text \<open>
  The comparisons \<^verbatim>\<open>==\<close> and \<^verbatim>\<open>!=\<close> of C++ on doubles: a NaN is unequal to everything,
  itself included, and the two zeros are equal.
\<close>

fun deq :: "double \<Rightarrow> double \<Rightarrow> bool" where
  "deq NaN _ = False"
| "deq _ NaN = False"
| "deq (Zero s) (Zero t) = True"
| "deq x y = (x = y)"

definition dne :: "double \<Rightarrow> double \<Rightarrow> bool" where
  "dne x y = (\<not> deq x y)"

text \<open>Conversion of an integer (\<^verbatim>\<open>int\<close>, \<^verbatim>\<open>size_t\<close>) to \<^verbatim>\<open>double\<close>.\<close>

definition double_of_int :: "int \<Rightarrow> double" where
  "double_of_int k = rnd (of_int k)"

section \<open>The averaging kernel\<close>

text \<open>
  An input array is the list of its elements, the vector \<^verbatim>\<open>in\<close> is a list of arrays, the
  weights \<^verbatim>\<open>w\<close> are a list with one weight per array. The output buffer \<^verbatim>\<open>out\<close> is
  passed in with the contents it has before the call and returned with the contents it
  has after it. The contract of the code is that every array and the buffer hold at
  least \<open>n\<close> elements, and that there are as many weights as arrays.
\<close>

text \<open>\<^verbatim>\<open>std::fill_n(out, n, v)\<close> and \<^verbatim>\<open>std::copy(src, src + n, out)\<close>.\<close>

definition fill_n :: "double list \<Rightarrow> nat \<Rightarrow> double \<Rightarrow> double list" where
  "fill_n out n v = fold (\<lambda>i out. out[i := v]) [0..<n] out"

definition copy_n :: "double list \<Rightarrow> nat \<Rightarrow> double list \<Rightarrow> double list" where
  "copy_n src n out = fold (\<lambda>i out. out[i := src ! i]) [0..<n] out"

text \<open>
  The four inner loops over the positions \<open>i < n\<close> of one array \<^verbatim>\<open>current\<close>. The first
  two are the loops of lines 85 to 87 and 68 to 70 (no NaN inspection), the last two
  those of lines 77 to 83 and 60 to 66, which carry the vector \<^verbatim>\<open>accumulated\<close> along.
  The counter of the third loop is incremented with \<^verbatim>\<open>++\<close>, at whatever type
  \<^verbatim>\<open>Weight_\<close> is.
\<close>

definition add_loop :: "nat \<Rightarrow> double list \<Rightarrow> double list \<Rightarrow> double list" where
  "add_loop n current out = fold (\<lambda>i out. out[i := out ! i + current ! i]) [0..<n] out"

definition add_scaled_loop ::
  "nat \<Rightarrow> double list \<Rightarrow> double \<Rightarrow> double list \<Rightarrow> double list" where
  "add_scaled_loop n current weight out =
     fold (\<lambda>i out. out[i := out ! i + current ! i * weight]) [0..<n] out"

definition skip_loop ::
  "nat \<Rightarrow> double list \<Rightarrow> double list \<times> 'w list \<Rightarrow> double list \<times> ('w::{plus,one}) list" where
  "skip_loop n current =
     fold (\<lambda>i (out, accumulated).
       let x = current ! i in
       if \<not> isnan x then (out[i := out ! i + x], accumulated[i := accumulated ! i + 1])
       else (out, accumulated)) [0..<n]"

definition skip_scaled_loop ::
  "nat \<Rightarrow> double list \<Rightarrow> double \<Rightarrow> double list \<times> double list
     \<Rightarrow> double list \<times> double list" where
  "skip_scaled_loop n current weight =
     fold (\<lambda>i (out, accumulated).
       let x = current ! i * weight in
       if \<not> isnan x then (out[i := out ! i + x], accumulated[i := accumulated ! i + weight])
       else (out, accumulated)) [0..<n]"

text \<open>
  The loop over the arrays (lines 47 to 89), once for each instantiation of the
  template. With \<^verbatim>\<open>weighted_ = false\<close> the block of lines 51 to 74 is compiled out and the
  counters are of type \<^verbatim>\<open>int\<close>. With \<^verbatim>\<open>weighted_ = true\<close> an array of weight zero is passed
  over, an array of weight one takes the loops of the unweighted case, and any other
  array is scaled by its weight.
\<close>

definition accumulate_unweighted ::
  "nat \<Rightarrow> double list list \<Rightarrow> bool \<Rightarrow> double list \<times> int list \<Rightarrow> double list \<times> int list" where
  "accumulate_unweighted n ins skip_nan =
     fold (\<lambda>current (out, accumulated).
       if skip_nan then skip_loop n current (out, accumulated)
       else (add_loop n current out, accumulated)) ins"

definition accumulate_weighted ::
  "nat \<Rightarrow> double list list \<Rightarrow> double list \<Rightarrow> bool \<Rightarrow> double list \<times> double list
     \<Rightarrow> double list \<times> double list" where
  "accumulate_weighted n ins w skip_nan =
     fold (\<lambda>(current, weight) (out, accumulated).
       if deq weight 0 then (out, accumulated)
       else if dne weight 1 then
         (if skip_nan then skip_scaled_loop n current weight (out, accumulated)
          else (add_scaled_loop n current weight out, accumulated))
       else if skip_nan then skip_loop n current (out, accumulated)
       else (add_loop n current out, accumulated)) (zip ins w)"

text \<open>
  The final pass (lines 91 to 105): a division by the counter of each position when
  NaNs are skipped, otherwise a multiplication by the reciprocal \<^verbatim>\<open>denom\<close>.
\<close>

definition divide_loop :: "nat \<Rightarrow> ('w \<Rightarrow> double) \<Rightarrow> 'w list \<Rightarrow> double list \<Rightarrow> double list" where
  "divide_loop n conv accumulated out =
     fold (\<lambda>i out. out[i := out ! i / conv (accumulated ! i)]) [0..<n] out"

definition scale_loop :: "nat \<Rightarrow> double \<Rightarrow> double list \<Rightarrow> double list" where
  "scale_loop n denom out = fold (\<lambda>i out. out[i := out ! i * denom]) [0..<n] out"

text \<open>\<^verbatim>\<open>std::accumulate(w, w + k, 0.0)\<close>.\<close>

definition accumulate :: "double list \<Rightarrow> nat \<Rightarrow> double" where
  "accumulate w k = fold (\<lambda>x s. s + x) (take k w) 0"

text \<open>
  \<^verbatim>\<open>internal::compute<false>\<close>, with \<^verbatim>\<open>Weight_ = int\<close> and no weights read, and
  \<^verbatim>\<open>internal::compute<true>\<close>, with \<^verbatim>\<open>Weight_ = double\<close>.
\<close>

definition internal_compute_unweighted ::
  "nat \<Rightarrow> double list list \<Rightarrow> double list \<Rightarrow> bool \<Rightarrow> double list" where
  "internal_compute_unweighted n ins out skip_nan =
     (if ins = [] then fill_n out n NaN
      else if length ins = 1 then copy_n (ins ! 0) n out
      else
        let out0 = fill_n out n 0;
            accumulated0 = replicate (if skip_nan then n else 0) (0::int);
            (out1, accumulated) = accumulate_unweighted n ins skip_nan (out0, accumulated0)
        in if skip_nan then divide_loop n double_of_int accumulated out1
           else
             let denom = 1 / double_of_int (int (length ins))
             in scale_loop n denom out1)"

definition internal_compute_weighted ::
  "nat \<Rightarrow> double list list \<Rightarrow> double list \<Rightarrow> double list \<Rightarrow> bool \<Rightarrow> double list" where
  "internal_compute_weighted n ins w out skip_nan =
     (if ins = [] then fill_n out n NaN
      else if length ins = 1 then
        (if deq (w ! 0) 0 then fill_n out n NaN else copy_n (ins ! 0) n out)
      else
        let out0 = fill_n out n 0;
            accumulated0 = replicate (if skip_nan then n else 0) (0::double);
            (out1, accumulated) = accumulate_weighted n ins w skip_nan (out0, accumulated0)
        in if skip_nan then divide_loop n (\<lambda>x. x) accumulated out1
           else
             let denom = 1 / accumulate w (length ins)
             in scale_loop n denom out1)"

text \<open>The public entry points, and the overloads that allocate the output vector.\<close>

definition compute :: "nat \<Rightarrow> double list list \<Rightarrow> double list \<Rightarrow> bool \<Rightarrow> double list" where
  "compute n ins out skip_nan = internal_compute_unweighted n ins out skip_nan"

definition compute_alloc :: "nat \<Rightarrow> double list list \<Rightarrow> bool \<Rightarrow> double list" where
  "compute_alloc n ins skip_nan = compute n ins (replicate n 0) skip_nan"

text \<open>
  The loop of lines 173 to 178, which leaves \<^verbatim>\<open>same\<close> true unless some weight differs
  from the first one.
\<close>

function same_loop :: "nat \<Rightarrow> nat \<Rightarrow> double list \<Rightarrow> bool" where
  "same_loop i end w =
     (if i < end then (if dne (w ! i) (w ! 0) then False else same_loop (Suc i) end w)
      else True)"
  by pat_completeness auto
termination
  by (relation "measure (\<lambda>(i, end, w). end - i)") auto

declare same_loop.simps [simp del]

definition compute_weighted ::
  "nat \<Rightarrow> double list list \<Rightarrow> double list \<Rightarrow> double list \<Rightarrow> bool \<Rightarrow> double list" where
  "compute_weighted n ins w out skip_nan =
     (if ins \<noteq> [] \<and> same_loop 1 (length ins) w then
        (if deq (w ! 0) 0 then fill_n out n NaN else compute n ins out skip_nan)
      else internal_compute_weighted n ins w out skip_nan)"

definition compute_weighted_alloc ::
  "nat \<Rightarrow> double list list \<Rightarrow> double list \<Rightarrow> bool \<Rightarrow> double list" where
  "compute_weighted_alloc n ins w skip_nan =
     compute_weighted n ins w (replicate n 0) skip_nan"

section \<open>Column-wise description of the result\<close>

text \<open>
  The claims speak about one output position at a time. The column of position \<open>i\<close>
  holds the elements that the arrays have there, in the order of the arrays.
\<close>

definition column :: "double list list \<Rightarrow> nat \<Rightarrow> double list" where
  "column ins i = map (\<lambda>a. a ! i) ins"

text \<open>The sum of a list of doubles from left to right, starting at \<open>+0\<close>.\<close>

definition float_sum :: "double list \<Rightarrow> double" where
  "float_sum xs = fold (\<lambda>x s. s + x) xs 0"

text \<open>
  One step of NaN-skipping accumulation on the running sum \<open>s\<close> and the counter \<open>c\<close> of
  a position: a NaN changes neither, anything else is added to the sum and its mass to
  the counter.
\<close>

definition skip_step :: "double \<Rightarrow> 'w \<Rightarrow> double \<times> 'w \<Rightarrow> double \<times> ('w::plus)" where
  "skip_step x mass = (\<lambda>(s, c). if isnan x then (s, c) else (s + x, c + mass))"

text \<open>
  What the array \<open>a\<close> with its weight does to position \<open>i\<close> in the weighted
  instantiation, without and with NaN-skipping.
\<close>

definition weighted_step :: "nat \<Rightarrow> double list \<times> double \<Rightarrow> double \<Rightarrow> double" where
  "weighted_step i = (\<lambda>(a, weight) s.
     if deq weight 0 then s
     else if dne weight 1 then s + a ! i * weight
     else s + a ! i)"

definition weighted_skip_step ::
  "nat \<Rightarrow> double list \<times> double \<Rightarrow> double \<times> double \<Rightarrow> double \<times> double" where
  "weighted_skip_step i = (\<lambda>(a, weight).
     if deq weight 0 then (\<lambda>st. st)
     else if dne weight 1 then skip_step (a ! i * weight) weight
     else skip_step (a ! i) 1)"

text \<open>
  The value that each entry point leaves at position \<open>i < n\<close> of the output, as a
  function of the arrays, the weights and the flag alone.
\<close>

definition skip_mean_unweighted :: "double list \<Rightarrow> double" where
  "skip_mean_unweighted xs =
     (case fold (\<lambda>x. skip_step x 1) xs (0, 0::int) of (s, c) \<Rightarrow> s / double_of_int c)"

definition unweighted_result :: "double list list \<Rightarrow> bool \<Rightarrow> nat \<Rightarrow> double" where
  "unweighted_result ins skip_nan i =
     (if ins = [] then NaN
      else if length ins = 1 then ins ! 0 ! i
      else if skip_nan then skip_mean_unweighted (column ins i)
      else float_sum (column ins i) * (1 / double_of_int (int (length ins))))"

definition weighted_result :: "double list list \<Rightarrow> double list \<Rightarrow> bool \<Rightarrow> nat \<Rightarrow> double" where
  "weighted_result ins w skip_nan i =
     (if ins = [] then NaN
      else if length ins = 1 then (if deq (w ! 0) 0 then NaN else ins ! 0 ! i)
      else if skip_nan then
        (case fold (weighted_skip_step i) (zip ins w) (0, 0) of (s, c) \<Rightarrow> s / c)
      else fold (weighted_step i) (zip ins w) 0 * (1 / accumulate w (length ins)))"

definition compute_weighted_result ::
  "double list list \<Rightarrow> double list \<Rightarrow> bool \<Rightarrow> nat \<Rightarrow> double" where
  "compute_weighted_result ins w skip_nan i =
     (if ins \<noteq> [] \<and> same_loop 1 (length ins) w then
        (if deq (w ! 0) 0 then NaN else unweighted_result ins skip_nan i)
      else weighted_result ins w skip_nan i)"

text \<open>
  What the arrays of nonzero weight add to position \<open>i\<close> in the weighted
  instantiation, in the order of the arrays: the element scaled by the weight, or the
  element itself for a weight of one.
\<close>

definition contributions :: "double list list \<Rightarrow> double list \<Rightarrow> nat \<Rightarrow> double list" where
  "contributions ins w i =
     map (\<lambda>(a, weight). if dne weight 1 then a ! i * weight else a ! i)
       (filter (\<lambda>(a, weight). \<not> deq weight 0) (zip ins w))"

text \<open>
  The NaN-skipping weighted mean of a column, given as the list of its elements paired
  with the weights of their arrays: a pair of weight zero takes no part, every other
  element is scaled by its weight and goes through the NaN-skipping step with its
  weight as mass; the mean is the sum over the counter.
\<close>

definition skip_mean_weighted :: "(double \<times> double) list \<Rightarrow> double" where
  "skip_mean_weighted xws =
     (case fold (\<lambda>(x, weight). skip_step (x * weight) weight)
             (filter (\<lambda>(x, weight). \<not> deq weight 0) xws) (0, 0)
      of (s, c) \<Rightarrow> s / c)"

text \<open>
  The arrays hold \<open>n\<close> doubles each; a weight is non-negative and finite, as the
  documentation of \<^verbatim>\<open>compute_weighted\<close> asks.
\<close>

definition holds_doubles :: "nat \<Rightarrow> double list list \<Rightarrow> bool" where
  "holds_doubles n ins = list_all (\<lambda>a. n \<le> length a \<and> list_all is_double (take n a)) ins"

fun weight_ok :: "double \<Rightarrow> bool" where
  "weight_ok (Zero s) = True"
| "weight_ok (Fin q) = (0 < q \<and> rnd q = Fin q)"
| "weight_ok _ = False"

text \<open>
  The running sum and the counter of accumulated weight of a position: the counter is
  still zero and nothing has been added to the sum, or the counter is positive.
\<close>

fun mass_state :: "double \<times> double \<Rightarrow> bool" where
  "mass_state (s, Zero t) = (\<not> t \<and> s = Zero False)"
| "mass_state (s, Fin q) = (0 < q)"
| "mass_state (s, Inf t) = (\<not> t)"
| "mass_state (s, NaN) = False"

text \<open>A double that is a number: a zero or a nonzero finite value.\<close>

fun is_finite :: "double \<Rightarrow> bool" where
  "is_finite (Fin q) = True"
| "is_finite (Zero s) = True"
| "is_finite _ = False"

section \<open>The loops, position by position\<close>

text \<open>
  Every loop over the positions changes position \<open>i\<close> of its buffers from the values
  at position \<open>i\<close> alone. This turns the loop over the arrays into a fold over each
  column, and the entry points into maps over the positions.
\<close>

lemma fold_upd_length [simp]:
  "length (fold (\<lambda>i out. out[i := f i out]) [0..<n] out) = length out"
  by (induction n) simp_all

lemma fold_upd_nth:
  "i < length out \<Longrightarrow>
   fold (\<lambda>i out. out[i := f i (out ! i)]) [0..<n] out ! i = (if i < n then f i (out ! i) else out ! i)"
proof (induction n)
  case 0
  then show ?case by simp
next
  case (Suc n)
  then show ?case by (auto simp: nth_list_update less_Suc_eq)
qed

lemma fold_upd_pair:
  "fold (\<lambda>i (out, acc). if c i then (out[i := f i (out ! i)], acc[i := g i (acc ! i)]) else (out, acc))
     [0..<n] (out, acc) =
   (fold (\<lambda>i out. out[i := (if c i then f i (out ! i) else out ! i)]) [0..<n] out,
    fold (\<lambda>i acc. acc[i := (if c i then g i (acc ! i) else acc ! i)]) [0..<n] acc)"
  by (induction n) simp_all

lemma length_fill_n [simp]: "length (fill_n out n v) = length out"
  by (simp add: fill_n_def)

lemma nth_fill_n: "i < length out \<Longrightarrow> fill_n out n v ! i = (if i < n then v else out ! i)"
  unfolding fill_n_def by (rule fold_upd_nth [where f = "\<lambda>_ _. v"])

lemma length_copy_n [simp]: "length (copy_n src n out) = length out"
  by (simp add: copy_n_def)

lemma nth_copy_n: "i < length out \<Longrightarrow> copy_n src n out ! i = (if i < n then src ! i else out ! i)"
  unfolding copy_n_def by (rule fold_upd_nth [where f = "\<lambda>i _. src ! i"])

lemma fill_n_eq: "n \<le> length out \<Longrightarrow> fill_n out n v = replicate n v @ drop n out"
  by (rule nth_equalityI) (auto simp: nth_fill_n nth_append)

lemma copy_n_eq: "n \<le> length out \<Longrightarrow> n \<le> length src \<Longrightarrow> copy_n src n out = take n src @ drop n out"
  by (rule nth_equalityI) (auto simp: nth_copy_n nth_append)

lemma length_add_loop [simp]: "length (add_loop n current out) = length out"
  by (simp add: add_loop_def)

lemma nth_add_loop:
  "i < length out \<Longrightarrow>
   add_loop n current out ! i = (if i < n then out ! i + current ! i else out ! i)"
  unfolding add_loop_def by (rule fold_upd_nth [where f = "\<lambda>i x. x + current ! i"])

lemma length_add_scaled_loop [simp]: "length (add_scaled_loop n current weight out) = length out"
  by (simp add: add_scaled_loop_def)

lemma nth_add_scaled_loop:
  "i < length out \<Longrightarrow>
   add_scaled_loop n current weight out ! i =
     (if i < n then out ! i + current ! i * weight else out ! i)"
  unfolding add_scaled_loop_def by (rule fold_upd_nth [where f = "\<lambda>i x. x + current ! i * weight"])

lemma skip_loop_eq:
  "skip_loop n current (out, acc) =
   (fold (\<lambda>i out. out[i := (if \<not> isnan (current ! i) then out ! i + current ! i else out ! i)]) [0..<n] out,
    fold (\<lambda>i acc. acc[i := (if \<not> isnan (current ! i) then acc ! i + 1 else acc ! i)]) [0..<n] acc)"
  unfolding skip_loop_def Let_def
  by (rule fold_upd_pair [where c = "\<lambda>i. \<not> isnan (current ! i)" and f = "\<lambda>i x. x + current ! i" and g = "\<lambda>i x. x + 1"])

lemma skip_scaled_loop_eq:
  "skip_scaled_loop n current weight (out, acc) =
   (fold (\<lambda>i out. out[i := (if \<not> isnan (current ! i * weight) then out ! i + current ! i * weight else out ! i)]) [0..<n] out,
    fold (\<lambda>i acc. acc[i := (if \<not> isnan (current ! i * weight) then acc ! i + weight else acc ! i)]) [0..<n] acc)"
  unfolding skip_scaled_loop_def Let_def
  by (rule fold_upd_pair [where c = "\<lambda>i. \<not> isnan (current ! i * weight)" and f = "\<lambda>i x. x + current ! i * weight" and g = "\<lambda>i x. x + weight"])

lemma fst_skip_loop_length [simp]: "length (fst (skip_loop n current (out, acc))) = length out"
  by (simp add: skip_loop_eq)

lemma snd_skip_loop_length [simp]: "length (snd (skip_loop n current (out, acc))) = length acc"
  by (simp add: skip_loop_eq)

lemma nth_skip_loop:
  assumes "i < length out" "i < length acc"
  shows "(fst (skip_loop n current (out, acc)) ! i, snd (skip_loop n current (out, acc)) ! i) =
     (if i < n then skip_step (current ! i) 1 (out ! i, acc ! i) else (out ! i, acc ! i))"
  using assms
  by (simp add: skip_loop_eq skip_step_def
      fold_upd_nth [where f = "\<lambda>i x. if \<not> isnan (current ! i) then x + current ! i else x"]
      fold_upd_nth [where f = "\<lambda>i x. if \<not> isnan (current ! i) then x + 1 else x"])

lemma fst_skip_scaled_loop_length [simp]:
  "length (fst (skip_scaled_loop n current weight (out, acc))) = length out"
  by (simp add: skip_scaled_loop_eq)

lemma snd_skip_scaled_loop_length [simp]:
  "length (snd (skip_scaled_loop n current weight (out, acc))) = length acc"
  by (simp add: skip_scaled_loop_eq)

lemma nth_skip_scaled_loop:
  assumes "i < length out" "i < length acc"
  shows "(fst (skip_scaled_loop n current weight (out, acc)) ! i,
          snd (skip_scaled_loop n current weight (out, acc)) ! i) =
     (if i < n then skip_step (current ! i * weight) weight (out ! i, acc ! i)
      else (out ! i, acc ! i))"
  using assms
  by (simp add: skip_scaled_loop_eq skip_step_def
      fold_upd_nth [where f = "\<lambda>i x. if \<not> isnan (current ! i * weight) then x + current ! i * weight else x"]
      fold_upd_nth [where f = "\<lambda>i x. if \<not> isnan (current ! i * weight) then x + weight else x"])

lemma accumulate_unweighted_noskip:
  "accumulate_unweighted n ins False (out, acc) = (fold (add_loop n) ins out, acc)"
  unfolding accumulate_unweighted_def
  by (induction ins arbitrary: out) simp_all

lemma length_fold_add_loop [simp]: "length (fold (add_loop n) ins out) = length out"
  by (induction ins arbitrary: out) simp_all

lemma nth_fold_add_loop:
  "i < length out \<Longrightarrow>
   fold (add_loop n) ins out ! i =
     (if i < n then fold (\<lambda>x s. s + x) (column ins i) (out ! i) else out ! i)"
  by (induction ins arbitrary: out) (simp_all add: column_def nth_add_loop)

lemma accumulate_unweighted_Cons:
  "accumulate_unweighted n (a # ins) True st =
   accumulate_unweighted n ins True (skip_loop n a st)"
  unfolding accumulate_unweighted_def by (cases st) simp

lemma accumulate_unweighted_Nil: "accumulate_unweighted n [] sk st = st"
  unfolding accumulate_unweighted_def by simp

lemma length_accumulate_unweighted_skip [simp]:
  "length (fst (accumulate_unweighted n ins True (out, acc))) = length out"
  "length (snd (accumulate_unweighted n ins True (out, acc))) = length acc"
proof (induction ins arbitrary: out acc)
  case Nil
  { case 1 show ?case by (simp add: accumulate_unweighted_Nil) }
  { case 2 show ?case by (simp add: accumulate_unweighted_Nil) }
next
  case (Cons a ins)
  { case 1 show ?case
      using Cons(1) [of "fst (skip_loop n a (out, acc))" "snd (skip_loop n a (out, acc))"]
      by (simp add: accumulate_unweighted_Cons) }
  { case 2 show ?case
      using Cons(2) [of "fst (skip_loop n a (out, acc))" "snd (skip_loop n a (out, acc))"]
      by (simp add: accumulate_unweighted_Cons) }
qed

lemma nth_accumulate_unweighted_skip:
  assumes "i < length out" "i < length acc"
  shows "(fst (accumulate_unweighted n ins True (out, acc)) ! i,
          snd (accumulate_unweighted n ins True (out, acc)) ! i) =
     (if i < n then fold (\<lambda>x. skip_step x 1) (column ins i) (out ! i, acc ! i)
      else (out ! i, acc ! i))"
  using assms
proof (induction ins arbitrary: out acc)
  case Nil
  then show ?case by (simp add: accumulate_unweighted_Nil column_def)
next
  case (Cons a ins)
  let ?st = "skip_loop n a (out, acc)"
  have "(fst (accumulate_unweighted n ins True (fst ?st, snd ?st)) ! i,
         snd (accumulate_unweighted n ins True (fst ?st, snd ?st)) ! i) =
        (if i < n then fold (\<lambda>x. skip_step x 1) (column ins i) (fst ?st ! i, snd ?st ! i)
         else (fst ?st ! i, snd ?st ! i))"
    using Cons.prems by (intro Cons.IH) simp_all
  then show ?case
    using nth_skip_loop [OF Cons.prems, of n a]
    by (simp add: accumulate_unweighted_Cons column_def)
qed

lemma accumulate_weighted_Nil: "accumulate_weighted n [] w sk st = st"
  "accumulate_weighted n ins [] sk st = st"
  unfolding accumulate_weighted_def by simp_all

lemma accumulate_weighted_Cons:
  "accumulate_weighted n (a # ins) (weight # w) sk (out, acc) =
   accumulate_weighted n ins w sk
     (if deq weight 0 then (out, acc)
      else if dne weight 1 then
         (if sk then skip_scaled_loop n a weight (out, acc)
          else (add_scaled_loop n a weight out, acc))
      else if sk then skip_loop n a (out, acc)
      else (add_loop n a out, acc))"
  unfolding accumulate_weighted_def by simp

lemma accumulate_weighted_noskip:
  "accumulate_weighted n ins w False (out, acc) =
     (fst (accumulate_weighted n ins w False (out, acc)), acc) \<and>
   length (fst (accumulate_weighted n ins w False (out, acc))) = length out \<and>
   (\<forall>i < length out. fst (accumulate_weighted n ins w False (out, acc)) ! i =
      (if i < n then fold (weighted_step i) (zip ins w) (out ! i) else out ! i))"
proof (induction ins arbitrary: w out)
  case Nil
  show ?case by (simp add: accumulate_weighted_Nil)
next
  case (Cons a ins)
  show ?case
  proof (cases w)
    case Nil
    then show ?thesis by (simp add: accumulate_weighted_Nil)
  next
    case (Cons weight w')
    show ?thesis
      using Cons.IH [of w' out] Cons.IH [of w' "add_scaled_loop n a weight out"]
        Cons.IH [of w' "add_loop n a out"]
      unfolding Cons accumulate_weighted_Cons
      by (simp add: weighted_step_def nth_add_loop nth_add_scaled_loop)
  qed
qed

lemma accumulate_weighted_skip:
  "length (fst (accumulate_weighted n ins w True (out, acc))) = length out \<and>
   length (snd (accumulate_weighted n ins w True (out, acc))) = length acc \<and>
   (\<forall>i. i < length out \<and> i < length acc \<longrightarrow>
      (fst (accumulate_weighted n ins w True (out, acc)) ! i,
       snd (accumulate_weighted n ins w True (out, acc)) ! i) =
      (if i < n then fold (weighted_skip_step i) (zip ins w) (out ! i, acc ! i)
       else (out ! i, acc ! i)))"
proof (induction ins arbitrary: w out acc)
  case Nil
  show ?case by (simp add: accumulate_weighted_Nil)
next
  case (Cons a ins)
  show ?case
  proof (cases w)
    case Nil
    then show ?thesis by (simp add: accumulate_weighted_Nil)
  next
    case w: (Cons weight w')
    let ?s1 = "skip_scaled_loop n a weight (out, acc)"
    let ?s2 = "skip_loop n a (out, acc)"
    consider "deq weight 0" | "\<not> deq weight 0" "dne weight 1" | "\<not> deq weight 0" "\<not> dne weight 1"
      by blast
    then show ?thesis
    proof cases
      case 1
      then show ?thesis
        using Cons.IH [of w' out acc] unfolding w accumulate_weighted_Cons
        by (simp add: weighted_skip_step_def)
    next
      case 2
      have eq: "accumulate_weighted n (a # ins) w True (out, acc) =
                accumulate_weighted n ins w' True (fst ?s1, snd ?s1)"
        using 2 unfolding w accumulate_weighted_Cons by simp
      show ?thesis
        unfolding eq using Cons.IH [of w' "fst ?s1" "snd ?s1"] 2
          nth_skip_scaled_loop [of _ out acc n a weight]
        by (simp add: w weighted_skip_step_def)
    next
      case 3
      have eq: "accumulate_weighted n (a # ins) w True (out, acc) =
                accumulate_weighted n ins w' True (fst ?s2, snd ?s2)"
        using 3 unfolding w accumulate_weighted_Cons by simp
      show ?thesis
        unfolding eq using Cons.IH [of w' "fst ?s2" "snd ?s2"] 3
          nth_skip_loop [of _ out acc n a]
        by (simp add: w weighted_skip_step_def)
    qed
  qed
qed

lemma fst_skip_loop_beyond:
  "n \<le> i \<Longrightarrow> i < length out \<Longrightarrow> fst (skip_loop n current (out, acc)) ! i = out ! i"
  by (simp add: skip_loop_eq
      fold_upd_nth [where f = "\<lambda>i x. if \<not> isnan (current ! i) then x + current ! i else x"])

lemma fst_skip_scaled_loop_beyond:
  "n \<le> i \<Longrightarrow> i < length out \<Longrightarrow>
   fst (skip_scaled_loop n current weight (out, acc)) ! i = out ! i"
  by (simp add: skip_scaled_loop_eq
      fold_upd_nth [where f = "\<lambda>i x. if \<not> isnan (current ! i * weight) then x + current ! i * weight else x"])

lemma accumulate_unweighted_skip_beyond:
  "n \<le> i \<Longrightarrow> i < length out \<Longrightarrow>
   fst (accumulate_unweighted n ins True (out, acc)) ! i = out ! i"
proof (induction ins arbitrary: out acc)
  case Nil
  then show ?case by (simp add: accumulate_unweighted_Nil)
next
  case (Cons a ins)
  show ?case
    using Cons.IH [of "fst (skip_loop n a (out, acc))" "snd (skip_loop n a (out, acc))"] Cons.prems
    by (simp add: accumulate_unweighted_Cons fst_skip_loop_beyond)
qed

lemma accumulate_weighted_skip_beyond:
  "n \<le> i \<Longrightarrow> i < length out \<Longrightarrow>
   fst (accumulate_weighted n ins w True (out, acc)) ! i = out ! i"
proof (induction ins arbitrary: w out acc)
  case Nil
  then show ?case by (simp add: accumulate_weighted_Nil)
next
  case (Cons a ins)
  show ?case
  proof (cases w)
    case Nil
    then show ?thesis by (simp add: accumulate_weighted_Nil)
  next
    case w: (Cons weight w')
    show ?thesis
      using Cons.IH [of "fst (skip_loop n a (out, acc))" w' "snd (skip_loop n a (out, acc))"]
        Cons.IH [of "fst (skip_scaled_loop n a weight (out, acc))" w'
          "snd (skip_scaled_loop n a weight (out, acc))"]
        Cons.IH [of out w' acc] Cons.prems
      unfolding w accumulate_weighted_Cons
      by (simp add: fst_skip_loop_beyond fst_skip_scaled_loop_beyond)
  qed
qed

lemma length_divide_loop [simp]: "length (divide_loop n conv acc out) = length out"
  by (simp add: divide_loop_def)

lemma nth_divide_loop:
  "i < length out \<Longrightarrow>
   divide_loop n conv acc out ! i = (if i < n then out ! i / conv (acc ! i) else out ! i)"
  unfolding divide_loop_def by (rule fold_upd_nth [where f = "\<lambda>i x. x / conv (acc ! i)"])

lemma length_scale_loop [simp]: "length (scale_loop n denom out) = length out"
  by (simp add: scale_loop_def)

lemma nth_scale_loop:
  "i < length out \<Longrightarrow>
   scale_loop n denom out ! i = (if i < n then out ! i * denom else out ! i)"
  unfolding scale_loop_def by (rule fold_upd_nth [where f = "\<lambda>i x. x * denom"])

lemma prefix_eqI:
  assumes "length res = length out" "n \<le> length out"
    and "\<And>i. i < n \<Longrightarrow> res ! i = f i"
    and "\<And>i. n \<le> i \<Longrightarrow> i < length out \<Longrightarrow> res ! i = out ! i"
  shows "res = map f [0..<n] @ drop n out"
proof (rule nth_equalityI)
  show "length res = length (map f [0..<n] @ drop n out)"
    using assms(1,2) by simp
next
  fix i assume "i < length res"
  then show "res ! i = (map f [0..<n] @ drop n out) ! i"
    using assms by (cases "i < n") (simp_all add: nth_append)
qed

lemma fill_n_map: "n \<le> length out \<Longrightarrow> fill_n out n v = map (\<lambda>i. v) [0..<n] @ drop n out"
  by (rule prefix_eqI) (simp_all add: nth_fill_n)

lemma copy_n_map:
  "n \<le> length out \<Longrightarrow> copy_n src n out = map (\<lambda>i. src ! i) [0..<n] @ drop n out"
  by (rule prefix_eqI) (simp_all add: nth_copy_n)

lemma internal_compute_unweighted_eq:
  assumes "n \<le> length out"
  shows "internal_compute_unweighted n ins out skip_nan =
         map (unweighted_result ins skip_nan) [0..<n] @ drop n out"
proof -
  consider "ins = []" | "length ins = 1" | "2 \<le> length ins" "skip_nan" | "2 \<le> length ins" "\<not> skip_nan"
    by (cases ins) (auto simp: Suc_le_eq)
  then show ?thesis
  proof cases
    case 1
    then show ?thesis
      using assms by (simp add: internal_compute_unweighted_def unweighted_result_def fill_n_map)
  next
    case 2
    then have "ins \<noteq> []" by auto
    with 2 show ?thesis
      using assms by (simp add: internal_compute_unweighted_def unweighted_result_def copy_n_map)
  next
    case 3
    let ?st = "accumulate_unweighted n ins True (fill_n out n 0, replicate n 0)"
    have ne: "ins \<noteq> []" "length ins \<noteq> 1" using 3 by auto
    have eq: "internal_compute_unweighted n ins out skip_nan =
              divide_loop n double_of_int (snd ?st) (fst ?st)"
      using 3 ne by (simp add: internal_compute_unweighted_def split_beta Let_def)
    have nth: "(fst ?st ! i, snd ?st ! i) =
               fold (\<lambda>x. skip_step x 1) (column ins i) (0, 0)" if "i < n" for i
      using nth_accumulate_unweighted_skip [of i "fill_n out n 0" "replicate n 0" n ins] that assms
      by (simp add: nth_fill_n)
    show ?thesis
      unfolding eq
    proof (rule prefix_eqI)
      fix i assume i: "i < n"
      have "divide_loop n double_of_int (snd ?st) (fst ?st) ! i =
            fst ?st ! i / double_of_int (snd ?st ! i)"
        using i assms by (simp add: nth_divide_loop)
      also have "\<dots> = skip_mean_unweighted (column ins i)"
        using nth [OF i] by (simp add: skip_mean_unweighted_def split_beta prod_eq_iff)
      finally show "divide_loop n double_of_int (snd ?st) (fst ?st) ! i =
                    unweighted_result ins skip_nan i"
        using 3 ne by (simp add: unweighted_result_def)
    next
      fix i assume i: "n \<le> i" "i < length out"
      then show "divide_loop n double_of_int (snd ?st) (fst ?st) ! i = out ! i"
        by (simp add: nth_divide_loop accumulate_unweighted_skip_beyond nth_fill_n)
    qed (use assms in simp_all)
  next
    case 4
    have ne: "ins \<noteq> []" "length ins \<noteq> 1" using 4 by auto
    have eq: "internal_compute_unweighted n ins out skip_nan =
              scale_loop n (1 / double_of_int (int (length ins))) (fold (add_loop n) ins (fill_n out n 0))"
      using 4 ne
      by (simp add: internal_compute_unweighted_def Let_def accumulate_unweighted_noskip)
    show ?thesis
      unfolding eq
    proof (rule prefix_eqI)
      fix i assume i: "i < n"
      then show "scale_loop n (1 / double_of_int (int (length ins)))
                   (fold (add_loop n) ins (fill_n out n 0)) ! i = unweighted_result ins skip_nan i"
        using assms 4 ne
        by (simp add: nth_scale_loop nth_fold_add_loop nth_fill_n unweighted_result_def float_sum_def)
    next
      fix i assume i: "n \<le> i" "i < length out"
      then show "scale_loop n (1 / double_of_int (int (length ins)))
                   (fold (add_loop n) ins (fill_n out n 0)) ! i = out ! i"
        by (simp add: nth_scale_loop nth_fold_add_loop nth_fill_n)
    qed (use assms in simp_all)
  qed
qed

lemma internal_compute_weighted_eq:
  assumes "n \<le> length out"
  shows "internal_compute_weighted n ins w out skip_nan =
         map (weighted_result ins w skip_nan) [0..<n] @ drop n out"
proof -
  consider "ins = []" | "length ins = 1" | "2 \<le> length ins" "skip_nan" | "2 \<le> length ins" "\<not> skip_nan"
    by (cases ins) (auto simp: Suc_le_eq)
  then show ?thesis
  proof cases
    case 1
    then show ?thesis
      using assms by (simp add: internal_compute_weighted_def weighted_result_def fill_n_map)
  next
    case 2
    then have "ins \<noteq> []" by auto
    with 2 show ?thesis
      using assms
      by (simp add: internal_compute_weighted_def weighted_result_def copy_n_map fill_n_map)
  next
    case 3
    let ?st = "accumulate_weighted n ins w True (fill_n out n 0, replicate n 0)"
    have ne: "ins \<noteq> []" "length ins \<noteq> 1" using 3 by auto
    have eq: "internal_compute_weighted n ins w out skip_nan =
              divide_loop n (\<lambda>x. x) (snd ?st) (fst ?st)"
      using 3 ne by (simp add: internal_compute_weighted_def split_beta Let_def)
    have len: "length (fst ?st) = length out"
      using accumulate_weighted_skip [of n ins w "fill_n out n 0" "replicate n 0"] by simp
    have nth: "(fst ?st ! i, snd ?st ! i) =
               fold (weighted_skip_step i) (zip ins w) (0, 0)" if "i < n" for i
      using accumulate_weighted_skip [of n ins w "fill_n out n 0" "replicate n 0"] that assms
      by (simp add: nth_fill_n)
    show ?thesis
      unfolding eq
    proof (rule prefix_eqI)
      fix i assume i: "i < n"
      have "divide_loop n (\<lambda>x. x) (snd ?st) (fst ?st) ! i = fst ?st ! i / snd ?st ! i"
        using i assms len by (simp add: nth_divide_loop)
      also have "\<dots> = (case fold (weighted_skip_step i) (zip ins w) (0, 0) of (s, c) \<Rightarrow> s / c)"
        using nth [OF i] by (simp add: split_beta prod_eq_iff)
      finally show "divide_loop n (\<lambda>x. x) (snd ?st) (fst ?st) ! i =
                    weighted_result ins w skip_nan i"
        using 3 ne by (simp add: weighted_result_def)
    next
      fix i assume i: "n \<le> i" "i < length out"
      then show "divide_loop n (\<lambda>x. x) (snd ?st) (fst ?st) ! i = out ! i"
        using len by (simp add: nth_divide_loop accumulate_weighted_skip_beyond nth_fill_n)
    qed (use assms len in simp_all)
  next
    case 4
    let ?st = "accumulate_weighted n ins w False (fill_n out n 0, [])"
    have ne: "ins \<noteq> []" "length ins \<noteq> 1" using 4 by auto
    have eq: "internal_compute_weighted n ins w out skip_nan =
              scale_loop n (1 / accumulate w (length ins)) (fst ?st)"
      using 4 ne by (simp add: internal_compute_weighted_def Let_def split_beta)
    note acc = accumulate_weighted_noskip [of n ins w "fill_n out n 0" "[]"]
    show ?thesis
      unfolding eq
    proof (rule prefix_eqI)
      fix i assume i: "i < n"
      then show "scale_loop n (1 / accumulate w (length ins)) (fst ?st) ! i =
                 weighted_result ins w skip_nan i"
        using assms 4 ne acc
        by (simp add: nth_scale_loop nth_fill_n weighted_result_def)
    next
      fix i assume i: "n \<le> i" "i < length out"
      then show "scale_loop n (1 / accumulate w (length ins)) (fst ?st) ! i = out ! i"
        using acc by (simp add: nth_scale_loop nth_fill_n)
    qed (use assms acc in simp_all)
  qed
qed

lemma same_loop_iff:
  "same_loop i end w \<longleftrightarrow> (\<forall>j. i \<le> j \<and> j < end \<longrightarrow> deq (w ! j) (w ! 0))"
proof (induction i "end" w rule: same_loop.induct)
  case (1 i e w)
  show ?case
  proof (cases "i < e")
    case True
    have split: "i \<le> j \<longleftrightarrow> j = i \<or> Suc i \<le> j" for j
      by arith
    have "(\<forall>j. i \<le> j \<and> j < e \<longrightarrow> deq (w ! j) (w ! 0)) \<longleftrightarrow>
          deq (w ! i) (w ! 0) \<and> (\<forall>j. Suc i \<le> j \<and> j < e \<longrightarrow> deq (w ! j) (w ! 0))"
      unfolding split using True by blast
    moreover have "same_loop i e w \<longleftrightarrow>
          deq (w ! i) (w ! 0) \<and> same_loop (Suc i) e w"
      using True by (subst same_loop.simps) (simp add: dne_def)
    moreover have "deq (w ! i) (w ! 0) \<Longrightarrow> same_loop (Suc i) e w \<longleftrightarrow>
          (\<forall>j. Suc i \<le> j \<and> j < e \<longrightarrow> deq (w ! j) (w ! 0))"
      using 1 [OF True] by (simp add: dne_def)
    ultimately show ?thesis by blast
  next
    case False
    then show ?thesis by (subst same_loop.simps) auto
  qed
qed

lemma compute_eq:
  "n \<le> length out \<Longrightarrow>
   compute n ins out skip_nan = map (unweighted_result ins skip_nan) [0..<n] @ drop n out"
  by (simp add: compute_def internal_compute_unweighted_eq)

lemma compute_weighted_eq:
  "n \<le> length out \<Longrightarrow>
   compute_weighted n ins w out skip_nan =
     map (compute_weighted_result ins w skip_nan) [0..<n] @ drop n out"
  by (simp add: compute_weighted_def compute_weighted_result_def compute_eq
      internal_compute_weighted_eq fill_n_map)

lemma compute_alloc_eq:
  "compute_alloc n ins skip_nan = map (unweighted_result ins skip_nan) [0..<n]"
  by (simp add: compute_alloc_def compute_eq)

lemma compute_weighted_alloc_eq:
  "compute_weighted_alloc n ins w skip_nan = map (compute_weighted_result ins w skip_nan) [0..<n]"
  by (simp add: compute_weighted_alloc_def compute_weighted_eq)

lemma map_nth_take: "n \<le> length a \<Longrightarrow> map (\<lambda>i. a ! i) [0..<n] = take n a"
  by (rule nth_equalityI) simp_all

lemma map_const_upt: "map (\<lambda>i. v) [0..<n] = replicate n v"
  by (simp add: map_replicate_const)

lemma deq_zero_iff: "deq x 0 \<longleftrightarrow> (\<exists>s. x = Zero s)"
  by (cases x) (simp_all add: zero_double_def)

section \<open>Evaluation of the arithmetic on literals\<close>

text \<open>Rewrite rules that let the simplifier compute with the definitions above.\<close>

lemma bitlen_numeral_simps:
  "bitlen 1 = 1"
  "bitlen (numeral Num.One) = 1"
  "bitlen (numeral (Num.Bit0 k)) = bitlen (numeral k) + 1"
  "bitlen (numeral (Num.Bit1 k)) = bitlen (numeral k) + 1"
proof -
  show "bitlen 1 = 1" "bitlen (numeral Num.One) = 1"
    by (simp_all add: bitlen_alt_def)
  show "bitlen (numeral (Num.Bit0 k)) = bitlen (numeral k) + 1"
    by (subst compute_bitlen) simp
  show "bitlen (numeral (Num.Bit1 k)) = bitlen (numeral k) + 1"
    by (subst compute_bitlen) simp
qed

lemma floor_numeral_divide:
  "\<lfloor>numeral a / numeral b :: rat\<rfloor> = numeral a div numeral b"
  using floor_divide_of_int_eq [of "numeral a" "numeral b", where ?'a = rat] by simp

lemma ceiling_numeral_divide:
  "\<lceil>numeral a / numeral b :: rat\<rceil> = - ((- numeral a) div numeral b)"
  using ceiling_divide_eq_div [of "numeral a" "numeral b", where ?'a = rat] by simp

lemma floor_one_divide: "\<lfloor>1 / numeral b :: rat\<rfloor> = 1 div numeral b"
  using floor_divide_of_int_eq [of 1 "numeral b", where ?'a = rat] by simp

lemma ceiling_one_divide: "\<lceil>1 / numeral b :: rat\<rceil> = - ((- 1) div numeral b)"
  using ceiling_divide_eq_div [of 1 "numeral b", where ?'a = rat] by simp

lemmas float_eval =
  rnd_def flog2_def pow2_def round_even_def Let_def bitlen_numeral_simps
  floor_numeral_divide ceiling_numeral_divide floor_one_divide ceiling_one_divide
  zero_double_def one_double_def plus_double_def times_double_def divide_double_def
  double_of_int_def dne_def

lemmas result_eval =
  unweighted_result_def weighted_result_def compute_weighted_result_def
  skip_mean_unweighted_def float_sum_def column_def skip_step_def
  weighted_step_def weighted_skip_step_def accumulate_def contributions_def

text \<open>
  The arithmetic at work: \<open>0.1 + 0.2\<close> and \<open>1 / 3\<close>, ties going to the even
  significand, underflow to a signed zero, overflow of the largest double, and the
  doubles among the finite values.
\<close>

lemma binary64_examples:
  "Fin (3602879701896397 / 36028797018963968) + Fin (3602879701896397 / 18014398509481984)
     = Fin (1351079888211149 / 4503599627370496)"
  "Fin 1 / Fin 3 = Fin (6004799503160661 / 18014398509481984)"
  "rnd (2 ^ 53 + 1) = Fin (2 ^ 53)"
  "rnd (2 ^ 53 + 3) = Fin (2 ^ 53 + 4)"
  "rnd (1 / 2 ^ 1075) = Zero False"
  "rnd (- (1 / 2 ^ 1076)) = Zero True"
  "Fin ((2 ^ 53 - 1) * 2 ^ 971) + Fin ((2 ^ 53 - 1) * 2 ^ 971) = Inf False"
  "is_double (Fin ((2 ^ 53 - 1) * 2 ^ 971))"
  "is_double (Fin (1 / 2 ^ 1074))"
  "\<not> is_double (Fin (1 / 3))"
  by (simp_all add: float_eval)

lemma upt_1: "[0..<1] = [0]"
  by simp

lemma upt_2: "[0..<2] = [0, 1]"
  by (simp add: upt_rec)

section \<open>Sums, weights and NaN\<close>

text \<open>
  The weighted sum of a column as a sum of contributions, the test for the weighted
  path, the irrelevance of arrays of weight zero, and the way a NaN takes over a sum.
\<close>

lemma fold_weighted_step:
  "fold (weighted_step i) aws s =
   fold (\<lambda>x s. s + x)
     (map (\<lambda>(a, weight). if dne weight 1 then a ! i * weight else a ! i)
       (filter (\<lambda>(a, weight). \<not> deq weight 0) aws)) s"
  by (induction aws arbitrary: s) (auto simp: weighted_step_def)

lemma weighted_sum_contributions:
  "fold (weighted_step i) (zip ins w) 0 = float_sum (contributions ins w i)"
  by (simp add: fold_weighted_step float_sum_def contributions_def)

lemma general_path:
  assumes "1 \<le> j" "j < length ins" "dne (w ! j) (w ! 0)"
  shows "\<not> same_loop 1 (length ins) w"
  using assms by (auto simp: same_loop_iff dne_def)

lemma deq_zero_trans: "deq x y \<Longrightarrow> deq x 0 \<Longrightarrow> deq y 0"
  by (cases x; cases y) (simp_all add: zero_double_def)

lemma zip_zero_weight_irrelevant:
  assumes "length xs = length ys"
    and "\<forall>j < length xs. \<not> deq (w ! j) 0 \<longrightarrow> xs ! j = ys ! j"
  shows "fold (weighted_step i) (zip xs w) s = fold (weighted_step i) (zip ys w) s \<and>
         fold (weighted_skip_step i) (zip xs w) st = fold (weighted_skip_step i) (zip ys w) st"
  using assms
proof (induction xs ys arbitrary: w s st rule: list_induct2)
  case Nil
  show ?case by simp
next
  case (Cons x xs y ys)
  show ?case
  proof (cases w)
    case Nil
    then show ?thesis by simp
  next
    case w: (Cons weight w')
    have hd: "\<not> deq weight 0 \<longrightarrow> x = y"
      using Cons.prems [rule_format, of 0] by (simp add: w)
    have tl: "\<forall>j < length xs. \<not> deq (w' ! j) 0 \<longrightarrow> xs ! j = ys ! j"
      using Cons.prems [rule_format, of "Suc j" for j] by (simp add: w)
    have step: "weighted_step i (x, weight) s = weighted_step i (y, weight) s"
      "weighted_skip_step i (x, weight) st = weighted_skip_step i (y, weight) st"
      using hd by (auto simp: weighted_step_def weighted_skip_step_def)
    show ?thesis
      using Cons.IH [OF tl] step by (simp add: w)
  qed
qed

lemma plus_NaN [simp]: "NaN + x = NaN" "x + NaN = NaN"
  by (cases x; simp add: plus_double_def)+

lemma times_NaN [simp]: "NaN * x = NaN" "x * NaN = NaN"
  by (cases x; simp add: times_double_def)+

lemma isnan_iff: "isnan x \<longleftrightarrow> x = NaN"
  by (cases x) simp_all

lemma fold_plus_NaN: "fold (\<lambda>x s. s + x) xs NaN = NaN"
  by (induction xs) simp_all

lemma fold_plus_mem_NaN: "NaN \<in> set xs \<Longrightarrow> fold (\<lambda>x s. s + x) xs s = NaN"
  by (induction xs arbitrary: s) (auto simp: fold_plus_NaN)

lemma NaN_in_column: "j < length ins \<Longrightarrow> isnan (ins ! j ! i) \<Longrightarrow> NaN \<in> set (column ins i)"
  unfolding column_def isnan_iff
  by (metis (mono_tags, lifting) image_eqI nth_mem set_map)

lemma NaN_in_contributions:
  assumes "j < length ins" "length w = length ins" "isnan (ins ! j ! i)" "\<not> deq (w ! j) 0"
  shows "NaN \<in> set (contributions ins w i)"
proof -
  have "(ins ! j, w ! j) \<in> set (zip ins w)"
    using assms(1,2) by (metis in_set_zip fst_conv snd_conv)
  then have "(ins ! j, w ! j) \<in> set (filter (\<lambda>(a, weight). \<not> deq weight 0) (zip ins w))"
    using assms(4) by simp
  then have "(\<lambda>(a, weight). if dne weight 1 then a ! i * weight else a ! i) (ins ! j, w ! j)
      \<in> set (contributions ins w i)"
    unfolding contributions_def set_map by (rule imageI)
  moreover have "(\<lambda>(a, weight). if dne weight 1 then a ! i * weight else a ! i)
      (ins ! j, w ! j) = NaN"
    using assms(3) by (simp add: isnan_iff)
  ultimately show ?thesis by simp
qed

section \<open>Facts about rounding\<close>

text \<open>
  Powers of two, the bounds of the binary logarithm and of rounding to an integer, and
  from them: a sum of positive doubles is positive or \<open>+\<infinity>\<close>, and multiplying a
  double by one returns it.
\<close>

lemma pow2_powi: "pow2 e = 2 powi e"
  by (simp add: pow2_def power_int_def field_simps)

lemma pow2_pos [simp]: "0 < pow2 e"
  by (simp add: pow2_powi)

lemma pow2_add: "pow2 (a + b) = pow2 a * pow2 b"
  by (simp add: pow2_powi power_int_add)

lemma pow2_mono: "a \<le> b \<Longrightarrow> pow2 a \<le> pow2 b"
  by (simp add: pow2_powi power_int_increasing)

lemma pow2_0 [simp]: "pow2 0 = 1"
  by (simp add: pow2_def)

lemma pow2_nat: "pow2 (int k) = 2 ^ k"
  by (simp add: pow2_def)

lemma pow2_nonneg [simp]: "0 \<le> pow2 e"
  using pow2_pos [of e] by linarith

lemma bitlen_upper: "0 \<le> x \<Longrightarrow> x < 2 ^ nat (bitlen x)"
proof (cases "x = 0")
  case True
  then show ?thesis by simp
next
  case False
  assume "0 \<le> x"
  with False have "0 < x" by simp
  from bitlen_bounds [OF this] show ?thesis by simp
qed

lemma flog2_lower:
  assumes "0 < q"
  shows "pow2 (flog2 q) \<le> q"
proof (cases "1 \<le> q")
  case True
  then have pos: "0 < \<lfloor>q\<rfloor>" by simp
  have "2 ^ nat (bitlen \<lfloor>q\<rfloor> - 1) \<le> \<lfloor>q\<rfloor>"
    using bitlen_bounds [OF pos] by simp
  then have "(of_int (2 ^ nat (bitlen \<lfloor>q\<rfloor> - 1)) :: rat) \<le> of_int \<lfloor>q\<rfloor>"
    by (simp only: of_int_le_iff)
  also have "\<dots> \<le> q" by simp
  finally have "2 ^ nat (bitlen \<lfloor>q\<rfloor> - 1) \<le> q" by simp
  moreover have "0 \<le> bitlen \<lfloor>q\<rfloor> - 1"
    using pos by (simp add: bitlen_alt_def)
  ultimately show ?thesis
    using True by (simp add: flog2_def pow2_def)
next
  case False
  let ?c = "\<lceil>1 / q\<rceil> - 1"
  have "0 < \<lceil>1 / q\<rceil>"
    using assms by simp
  then have c0: "0 \<le> ?c" by simp
  have "?c < 2 ^ nat (bitlen ?c)"
    using c0 by (rule bitlen_upper)
  then have "\<lceil>1 / q\<rceil> \<le> 2 ^ nat (bitlen ?c)" by simp
  then have "(of_int \<lceil>1 / q\<rceil> :: rat) \<le> of_int (2 ^ nat (bitlen ?c))"
    by (simp only: of_int_le_iff)
  with le_of_int_ceiling [of "1 / q"]
  have "1 / q \<le> of_int (2 ^ nat (bitlen ?c))"
    by (rule order_trans)
  then have "1 / q \<le> 2 ^ nat (bitlen ?c)"
    by simp
  then have "1 / 2 ^ nat (bitlen ?c) \<le> q"
    using assms by (simp add: field_simps)
  moreover have "pow2 (- bitlen ?c) = 1 / 2 ^ nat (bitlen ?c)"
    using bitlen_nonneg [of ?c] by (cases "bitlen ?c = 0") (simp_all add: pow2_def)
  ultimately show ?thesis
    using False by (simp add: flog2_def)
qed

lemma round_even_bounds: "of_int (round_even s) \<le> s + 1 / 2 \<and> s - 1 / 2 \<le> of_int (round_even s)"
proof -
  define f where "f = \<lfloor>s\<rfloor>"
  have f: "of_int f \<le> s" "s < of_int f + 1"
    unfolding f_def by linarith+
  have "round_even s = f \<and> s - of_int f \<le> 1 / 2 \<or> round_even s = f + 1 \<and> 1 / 2 \<le> s - of_int f"
    unfolding round_even_def Let_def f_def [symmetric] by auto
  then show ?thesis
    using f by auto
qed

lemma round_even_ge_1: "1 \<le> s \<Longrightarrow> 1 \<le> round_even s"
proof -
  assume "1 \<le> s"
  then have "1 \<le> \<lfloor>s\<rfloor>" by simp
  then show ?thesis by (auto simp: round_even_def Let_def)
qed

lemma round_even_nonneg: "0 \<le> s \<Longrightarrow> 0 \<le> round_even s"
proof -
  assume "0 \<le> s"
  then have "0 \<le> \<lfloor>s\<rfloor>" by simp
  then show ?thesis by (auto simp: round_even_def Let_def)
qed

lemma round_even_of_int [simp]: "round_even (of_int k) = k"
  by (simp add: round_even_def)

lemma rnd_cases:
  assumes "q \<noteq> 0"
  defines "e \<equiv> max (- 1074) (flog2 \<bar>q\<bar> - 52)"
  defines "m \<equiv> round_even (\<bar>q\<bar> / pow2 e)"
  shows "rnd q = (if m = 0 then Zero (q < 0)
                  else if pow2 1024 \<le> of_int m * pow2 e then Inf (q < 0)
                  else Fin (if q < 0 then - (of_int m * pow2 e) else of_int m * pow2 e))"
  using assms by (simp add: rnd_def Let_def)

lemma rnd_pos:
  assumes "pow2 (- 1074) \<le> q"
  shows "(\<exists>r>0. rnd q = Fin r) \<or> rnd q = Inf False"
proof -
  define e where "e = max (- 1074) (flog2 \<bar>q\<bar> - 52)"
  define m where "m = round_even (\<bar>q\<bar> / pow2 e)"
  have q: "0 < q" using assms pow2_pos [of "- 1074"] by linarith
  have "pow2 e \<le> q"
  proof (cases "e = - 1074")
    case True
    then show ?thesis using assms by simp
  next
    case False
    then have "e = flog2 q - 52" using q by (simp add: e_def max_def split: if_splits)
    then have "pow2 e \<le> pow2 (flog2 q)" by (intro pow2_mono) simp
    then show ?thesis using flog2_lower [OF q] by linarith
  qed
  then have "1 \<le> \<bar>q\<bar> / pow2 e" using q by (simp add: field_simps)
  then have m: "1 \<le> m" unfolding m_def by (rule round_even_ge_1)
  then have "0 < (of_int m :: rat) * pow2 e" by simp
  then show ?thesis
    using rnd_cases [of q] q m unfolding e_def [symmetric] m_def [symmetric]
    by (auto split: if_splits)
qed

lemma is_double_pos_ge:
  assumes "rnd q = Fin q" "0 < q"
  shows "pow2 (- 1074) \<le> q"
proof -
  define e where "e = max (- 1074) (flog2 \<bar>q\<bar> - 52)"
  define m where "m = round_even (\<bar>q\<bar> / pow2 e)"
  have "0 \<le> \<bar>q\<bar> / pow2 e"
    by (intro divide_nonneg_pos) simp_all
  then have "0 \<le> m" unfolding m_def by (rule round_even_nonneg)
  have eq: "m \<noteq> 0 \<and> q = of_int m * pow2 e"
    using rnd_cases [of q] assms unfolding e_def [symmetric] m_def [symmetric]
    by (auto split: if_splits)
  with \<open>0 \<le> m\<close> have "1 \<le> m" by simp
  then have "(1::rat) \<le> of_int m" by simp
  then have "1 * pow2 e \<le> of_int m * pow2 e"
    by (intro mult_right_mono) simp_all
  then have "pow2 e \<le> q"
    using eq by simp
  moreover have "pow2 (- 1074) \<le> pow2 e"
    by (intro pow2_mono) (simp add: e_def)
  ultimately show ?thesis by (rule order_trans [rotated])
qed

lemma times_one_double: "is_double x \<Longrightarrow> x * 1 = x"
  by (cases x) (simp_all add: times_double_def one_double_def)

lemma deq_one: "deq x 1 \<longleftrightarrow> x = 1"
  by (cases x) (auto simp: one_double_def)

lemma holds_doubles_nth:
  assumes "holds_doubles n ins" "a \<in> set ins" "i < n"
  shows "is_double (a ! i)"
proof -
  have a: "n \<le> length a" "list_all is_double (take n a)"
    using assms(1,2) by (auto simp: holds_doubles_def list_all_iff)
  have "take n a ! i \<in> set (take n a)"
    using a(1) assms(3) by (intro nth_mem) simp
  then show ?thesis
    using a(2) assms(3) by (auto simp: list_all_iff)
qed

lemma fold_weighted_skip_step:
  assumes "\<forall>a \<in> set ins. is_double (a ! i)"
  shows "fold (weighted_skip_step i) (zip ins w) st =
         fold (\<lambda>(x, weight). skip_step (x * weight) weight)
           (filter (\<lambda>(x, weight). \<not> deq weight 0) (zip (column ins i) w)) st"
  using assms
proof (induction ins arbitrary: w st)
  case Nil
  show ?case by (simp add: column_def)
next
  case (Cons a ins)
  show ?case
  proof (cases w)
    case Nil
    then show ?thesis by simp
  next
    case w: (Cons weight w')
    have d: "is_double (a ! i)" using Cons.prems by simp
    have step: "\<not> deq weight 0 \<Longrightarrow>
        weighted_skip_step i (a, weight) = skip_step (a ! i * weight) weight"
      using times_one_double [OF d]
      by (auto simp: weighted_skip_step_def dne_def deq_one)
    have z: "deq weight 0 \<Longrightarrow> weighted_skip_step i (a, weight) st = st"
      by (simp add: weighted_skip_step_def)
    have IH: "fold (weighted_skip_step i) (zip ins w') st' =
         fold (\<lambda>(x, weight). skip_step (x * weight) weight)
           (filter (\<lambda>(x, weight). \<not> deq weight 0) (zip (column ins i) w')) st'" for st'
      using Cons.IH [of w' st'] Cons.prems by simp
    show ?thesis
      using step z IH by (simp add: w column_def)
  qed
qed

lemma zero_div_zero: "(0::double) / 0 = NaN"
  by (simp add: zero_double_def divide_double_def)

lemma double_of_int_0: "double_of_int 0 = 0"
  by (simp add: double_of_int_def rnd_def zero_double_def)

lemma skip_count_invariant:
  assumes "0 \<le> c \<and> (c = 0 \<longrightarrow> s = 0)"
  shows "0 \<le> snd (fold (\<lambda>x. skip_step x 1) xs (s, c :: int)) \<and>
         (snd (fold (\<lambda>x. skip_step x 1) xs (s, c)) = 0 \<longrightarrow>
          fst (fold (\<lambda>x. skip_step x 1) xs (s, c)) = 0)"
  using assms
proof (induction xs arbitrary: s c)
  case Nil
  then show ?case by simp
next
  case (Cons x xs)
  show ?case
  proof (cases "isnan x")
    case True
    then show ?thesis using Cons.IH [OF Cons.prems] by (simp add: skip_step_def)
  next
    case False
    have "0 \<le> c + 1 \<and> (c + 1 = 0 \<longrightarrow> s + x = 0)"
      using Cons.prems by auto
    from Cons.IH [OF this] show ?thesis
      using False by (simp add: skip_step_def)
  qed
qed

lemma mass_state_add:
  assumes "mass_state (s, c)" "0 < q" "rnd q = Fin q"
  shows "mass_state (s', c + Fin q)"
proof (cases c)
  case NaN
  then show ?thesis using assms(1) by simp
next
  case (Inf t)
  then show ?thesis using assms(1) by (simp add: plus_double_def)
next
  case (Zero t)
  then show ?thesis using assms(2) by (simp add: plus_double_def)
next
  case (Fin p)
  have "pow2 (- 1074) \<le> q"
    using assms(3,2) by (rule is_double_pos_ge)
  moreover have "0 < p" using assms(1) Fin by simp
  ultimately have "pow2 (- 1074) \<le> p + q" by linarith
  from rnd_pos [OF this] show ?thesis
    using Fin by (auto simp: plus_double_def)
qed

lemma mass_state_step:
  assumes "mass_state st" "weight_ok weight"
  shows "mass_state (weighted_skip_step i (a, weight) st)"
proof (cases "deq weight 0")
  case True
  then show ?thesis using assms(1) by (simp add: weighted_skip_step_def)
next
  case False
  then obtain q where q: "weight = Fin q" "0 < q" "rnd q = Fin q"
    using assms(2) by (cases weight) (simp_all add: zero_double_def)
  obtain s c where st: "st = (s, c)" by (cases st)
  have add: "mass_state (s', c + weight)" for s'
    using mass_state_add [OF assms(1) [unfolded st] q(2,3)] q(1) by simp
  have one: "\<not> dne weight 1 \<Longrightarrow> weight = 1"
    by (simp add: dne_def deq_one)
  show ?thesis
    using False add assms(1) one
    by (auto simp: weighted_skip_step_def skip_step_def st)
qed

lemma mass_state_fold:
  assumes "mass_state st" "list_all weight_ok w"
  shows "mass_state (fold (weighted_skip_step i) (zip ins w) st)"
  using assms
proof (induction ins arbitrary: w st)
  case Nil
  then show ?case by simp
next
  case (Cons a ins)
  show ?case
  proof (cases w)
    case Nil
    then show ?thesis using Cons.prems by simp
  next
    case w: (Cons weight w')
    have "mass_state (weighted_skip_step i (a, weight) st)"
      using Cons.prems by (intro mass_state_step) (simp_all add: w)
    from Cons.IH [OF this, of w'] show ?thesis
      using Cons.prems(2) by (simp add: w)
  qed
qed

lemma mass_state_zero: "mass_state (s, c) \<Longrightarrow> deq c 0 \<Longrightarrow> s / c = NaN"
  by (cases c) (simp_all add: zero_double_def divide_double_def)

lemma replicate_2: "replicate 2 x = [x, x]"
  by (simp add: numeral_2_eq_2)

lemmas loop_eval =
  accumulate_unweighted_def accumulate_weighted_def skip_loop_def skip_scaled_loop_def
  add_loop_def add_scaled_loop_def fill_n_def copy_n_def divide_loop_def scale_loop_def
  upt_1 upt_2 replicate_2

text \<open>
  Why the weights must be non-negative for a zero counter to mean that nothing was
  added: the weights \<open>2\<close> and \<open>-2\<close> cancel in the counter, the sum is \<open>-4\<close>, and
  the output is \<open>-\<infinity>\<close>.
\<close>

lemma cancelling_weights:
  "snd (accumulate_weighted 1 [[Fin 1], [Fin 3]] [Fin 2, Fin (- 2)] True
          (fill_n [Zero False] 1 0, replicate 1 0)) = [Zero False]"
  "compute_weighted 1 [[Fin 1], [Fin 3]] [Fin 2, Fin (- 2)] [Zero False] True = [Inf True]"
proof -
  show "snd (accumulate_weighted 1 [[Fin 1], [Fin 3]] [Fin 2, Fin (- 2)] True
          (fill_n [Zero False] 1 0, replicate 1 0)) = [Zero False]"
    by (simp add: loop_eval float_eval)
  show "compute_weighted 1 [[Fin 1], [Fin 3]] [Fin 2, Fin (- 2)] [Zero False] True = [Inf True]"
    by (simp add: compute_weighted_eq upt_1 same_loop.simps result_eval float_eval
        del: One_nat_def)
qed

section \<open>Doubling and halving\<close>

text \<open>
  Twice a double is a double or overflows, so the average of two equal doubles is
  exact when their sum is finite.
\<close>

lemma pow2_Suc: "pow2 (e + 1) = 2 * pow2 e"
  by (simp add: pow2_powi power_int_add_1)

lemma pow2_neq_0 [simp]: "pow2 e \<noteq> 0"
  using pow2_pos [of e] by linarith

lemma pow2_less_imp: "pow2 a < pow2 b \<Longrightarrow> a < b"
  using pow2_mono [of b a] by (cases "a < b") auto

lemma flog2_upper:
  assumes "0 < q"
  shows "q < pow2 (flog2 q + 1)"
proof (cases "1 \<le> q")
  case True
  then have pos: "0 < \<lfloor>q\<rfloor>" by simp
  have "\<lfloor>q\<rfloor> + 1 \<le> 2 ^ nat (bitlen \<lfloor>q\<rfloor>)"
    using bitlen_bounds [OF pos] by simp
  then have "(of_int (\<lfloor>q\<rfloor> + 1) :: rat) \<le> of_int (2 ^ nat (bitlen \<lfloor>q\<rfloor>))"
    by (simp only: of_int_le_iff)
  moreover have "q < of_int (\<lfloor>q\<rfloor> + 1)" by (simp; linarith)
  ultimately have "q < of_int (2 ^ nat (bitlen \<lfloor>q\<rfloor>))" by (rule less_le_trans [rotated])
  then have "q < 2 ^ nat (bitlen \<lfloor>q\<rfloor>)" by simp
  moreover have "0 \<le> bitlen \<lfloor>q\<rfloor>" by (rule bitlen_nonneg)
  ultimately show ?thesis
    using True by (simp add: flog2_def pow2_def)
next
  case False
  let ?c = "\<lceil>1 / q\<rceil> - 1"
  have "1 < 1 / q" using assms False by simp
  then have "1 < \<lceil>1 / q\<rceil>" by (simp add: less_ceiling_iff)
  then have c: "0 < ?c" by simp
  then have b: "1 \<le> bitlen ?c" by (simp add: bitlen_alt_def)
  have "2 ^ nat (bitlen ?c - 1) \<le> ?c"
    using bitlen_bounds [OF c] by simp
  then have "(of_int (2 ^ nat (bitlen ?c - 1)) :: rat) \<le> of_int ?c"
    by (simp only: of_int_le_iff)
  moreover have "of_int ?c < 1 / q"
    using ceiling_correct [of "1 / q"] by simp
  ultimately have "of_int (2 ^ nat (bitlen ?c - 1)) < 1 / q" by (rule le_less_trans)
  then have "2 ^ nat (bitlen ?c - 1) < 1 / q" by simp
  then have "q < 1 / 2 ^ nat (bitlen ?c - 1)"
    using assms by (simp add: field_simps)
  moreover have "pow2 (- bitlen ?c + 1) = 1 / 2 ^ nat (bitlen ?c - 1)"
    using b by (cases "bitlen ?c = 1") (simp_all add: pow2_def)
  ultimately show ?thesis
    using False by (simp add: flog2_def)
qed

lemma flog2_unique:
  assumes "pow2 l \<le> q" "q < pow2 (l + 1)"
  shows "flog2 q = l"
proof -
  have q: "0 < q" using assms(1) pow2_pos [of l] by linarith
  have "pow2 l < pow2 (flog2 q + 1)"
    using assms(1) flog2_upper [OF q] by linarith
  then have "l < flog2 q + 1" by (rule pow2_less_imp)
  moreover have "pow2 (flog2 q) < pow2 (l + 1)"
    using assms(2) flog2_lower [OF q] by linarith
  then have "flog2 q < l + 1" by (rule pow2_less_imp)
  ultimately show ?thesis by simp
qed

lemma flog2_twice: "0 < q \<Longrightarrow> flog2 (2 * q) = flog2 q + 1"
proof (rule flog2_unique)
  assume q: "0 < q"
  have "pow2 (flog2 q + 1) = 2 * pow2 (flog2 q)"
    by (rule pow2_Suc)
  then show "pow2 (flog2 q + 1) \<le> 2 * q"
    using flog2_lower [OF q] by linarith
  have "pow2 (flog2 q + 1 + 1) = 2 * pow2 (flog2 q + 1)"
    by (rule pow2_Suc)
  then show "2 * q < pow2 (flog2 q + 1 + 1)"
    using flog2_upper [OF q] by linarith
qed

lemma rnd_twice:
  assumes "rnd q = Fin q"
  shows "rnd (2 * q) = Fin (2 * q) \<or> rnd (2 * q) = Inf (q < 0)"
proof -
  define a where "a = \<bar>q\<bar>"
  define e where "e = max (- 1074) (flog2 a - 52)"
  define m where "m = round_even (a / pow2 e)"
  define e' where "e' = max (- 1074) (flog2 (2 * a) - 52)"
  define m' where "m' = round_even (2 * a / pow2 e')"
  have q0: "q \<noteq> 0" using assms by (auto simp: rnd_def)
  then have a: "0 < a" by (simp add: a_def)
  have m: "m \<noteq> 0 \<and> a = of_int m * pow2 e"
    using rnd_cases [OF q0] assms unfolding a_def [symmetric] e_def [symmetric] m_def [symmetric]
    by (auto simp: a_def split: if_splits)
  then have sig: "a / pow2 e = of_int m" by simp
  have fl: "flog2 (2 * a) = flog2 a + 1" using a by (rule flog2_twice)
  have "m' \<noteq> 0 \<and> of_int m' * pow2 e' = 2 * a"
  proof (cases "- 1074 \<le> flog2 a - 52")
    case True
    then have e: "e = flog2 a - 52" "e' = e + 1"
      by (simp_all add: e_def e'_def fl)
    have "2 * a / pow2 e' = of_int m"
      using sig by (simp add: e(2) pow2_Suc)
    then have "m' = m" by (simp add: m'_def)
    then show ?thesis using m by (simp add: e(2) pow2_Suc)
  next
    case False
    then have e: "e = - 1074" "e' = - 1074"
      by (simp_all add: e_def e'_def fl)
    have "2 * a / pow2 e' = of_int (2 * m)"
      using sig by (simp add: e)
    then have "m' = round_even (of_int (2 * m))" by (simp only: m'_def)
    then have "m' = 2 * m" by (simp only: round_even_of_int)
    then show ?thesis using m by (simp add: e)
  qed
  moreover have "\<bar>2 * q\<bar> = 2 * a" by (simp add: a_def)
  moreover have "2 * q \<noteq> 0" using q0 by simp
  ultimately show ?thesis
    using rnd_cases [of "2 * q"] unfolding e'_def m'_def
    by (auto split: if_splits)
qed

lemma constant_column:
  "\<forall>a \<in> set ins. a ! i = v \<Longrightarrow> column ins i = replicate (length ins) v"
  unfolding column_def by (induction ins) simp_all

lemma reciprocal_of_2: "1 / double_of_int 2 = Fin (1 / 2)"
  by (simp add: float_eval)

lemma average_of_two_equal:
  assumes "is_double v" "v \<noteq> Zero True" "is_finite v \<longrightarrow> is_finite (v + v)"
  shows "float_sum [v, v] * Fin (1 / 2) = v"
proof (cases v)
  case NaN
  then show ?thesis by (simp add: float_sum_def)
next
  case (Inf s)
  then show ?thesis
    by (simp add: float_sum_def zero_double_def plus_double_def times_double_def)
next
  case (Zero s)
  then show ?thesis
    using assms(2) by (simp add: float_sum_def zero_double_def plus_double_def times_double_def)
next
  case (Fin q)
  have q: "rnd q = Fin q" using assms(1) Fin by simp
  have vv: "v + v = rnd (2 * q)"
    using Fin by (simp add: plus_double_def)
  have "is_finite (rnd (2 * q))"
    using assms(3) Fin vv by simp
  then have r: "rnd (2 * q) = Fin (2 * q)"
    using rnd_twice [OF q] by auto
  have "float_sum [v, v] = (0 + v) + v"
    by (simp add: float_sum_def)
  also have "0 + v = v"
    using Fin by (simp add: zero_double_def plus_double_def)
  finally have "float_sum [v, v] = Fin (2 * q)"
    using vv r by simp
  then show ?thesis
    using q Fin by (simp add: times_double_def)
qed

section \<open>The claims\<close>

text \<open>
  In the statements below the result of a call is the output buffer after the call:
  its first \<open>n\<close> elements are the averages, the rest of the buffer is what it was.
\<close>

text \<open>
  Claim C1. With NaN-skipping and at least two arrays, every output position is its
  running sum divided by its own counter, where a NaN element changes neither and any
  other element is added to the sum and its mass to the counter. The mass is one and
  the counter an integer for \<^verbatim>\<open>compute\<close>; for \<^verbatim>\<open>compute_weighted\<close> on its weighted
  path the element is first scaled by the weight of its array, which is also its mass
  (arrays of weight zero take no part, as the specification says of them). The arrays
  \<open>[1, NaN]\<close>, \<open>[3, NaN]\<close>, \<open>[5, 4]\<close> average to \<open>[3, 4]\<close>.
\<close>

theorem nan_skipping_average:
  assumes "2 \<le> length ins" "n \<le> length out"
  shows "compute n ins out True =
           map (\<lambda>i. skip_mean_unweighted (column ins i)) [0..<n] @ drop n out \<and>
         ((\<exists>j. 1 \<le> j \<and> j < length ins \<and> dne (w ! j) (w ! 0)) \<and> holds_doubles n ins \<longrightarrow>
          compute_weighted n ins w out True =
            map (\<lambda>i. skip_mean_weighted (zip (column ins i) w)) [0..<n] @ drop n out) \<and>
         compute 2 [[Fin 1, NaN], [Fin 3, NaN], [Fin 5, Fin 4]] [x, y] True = [Fin 3, Fin 4] \<and>
         compute_alloc 2 [[Fin 1, NaN], [Fin 3, NaN], [Fin 5, Fin 4]] True = [Fin 3, Fin 4]"
proof -
  have ne: "ins \<noteq> []" "length ins \<noteq> 1" using assms(1) by auto
  have u: "unweighted_result ins True = (\<lambda>i. skip_mean_unweighted (column ins i))"
    using ne by (auto simp: unweighted_result_def)
  have w: "map (compute_weighted_result ins w True) [0..<n] =
           map (\<lambda>i. skip_mean_weighted (zip (column ins i) w)) [0..<n]"
    if "\<exists>j. 1 \<le> j \<and> j < length ins \<and> dne (w ! j) (w ! 0)" "holds_doubles n ins"
  proof (rule map_cong [OF refl])
    fix i assume "i \<in> set [0..<n]"
    then have i: "i < n" by simp
    have "\<not> same_loop 1 (length ins) w"
      using that(1) general_path by blast
    moreover have "\<forall>a \<in> set ins. is_double (a ! i)"
      using holds_doubles_nth [OF that(2) _ i] by blast
    ultimately show "compute_weighted_result ins w True i =
                     skip_mean_weighted (zip (column ins i) w)"
      using ne
      by (simp add: compute_weighted_result_def weighted_result_def skip_mean_weighted_def
          fold_weighted_skip_step)
  qed
  have ex: "compute 2 [[Fin 1, NaN], [Fin 3, NaN], [Fin 5, Fin 4]] [x, y] True = [Fin 3, Fin 4]"
    "compute_alloc 2 [[Fin 1, NaN], [Fin 3, NaN], [Fin 5, Fin 4]] True = [Fin 3, Fin 4]"
    by (simp_all add: compute_eq compute_alloc_eq upt_2 result_eval float_eval)
  show ?thesis
    using assms(2) u w ex by (simp add: compute_eq compute_weighted_eq)
qed

theorem nan_skipping_average_witness:
  "(2::nat) \<le> length [[Fin 1, NaN], [Fin 3, Fin 2]] \<and> (2::nat) \<le> length [NaN, NaN] \<and>
   (1::nat) < length [[Fin 1, NaN], [Fin 3, Fin 2]] \<and>
   dne ([Fin 3, Fin 1] ! 1) ([Fin 3, Fin 1] ! 0) \<and>
   holds_doubles 2 [[Fin 1, NaN], [Fin 3, Fin 2]] \<and>
   skip_mean_unweighted (column [[Fin 1, NaN], [Fin 3, Fin 2]] 0) = Fin 2 \<and>
   skip_mean_unweighted (column [[Fin 1, NaN], [Fin 3, Fin 2]] 1) = Fin 2 \<and>
   compute 2 [[Fin 1, NaN], [Fin 3, Fin 2]] [NaN, NaN] True = [Fin 2, Fin 2] \<and>
   skip_mean_weighted (zip (column [[Fin 1, NaN], [Fin 3, Fin 2]] 0) [Fin 3, Fin 1]) = Fin (3 / 2) \<and>
   skip_mean_weighted (zip (column [[Fin 1, NaN], [Fin 3, Fin 2]] 1) [Fin 3, Fin 1]) = Fin 2 \<and>
   compute_weighted 2 [[Fin 1, NaN], [Fin 3, Fin 2]] [Fin 3, Fin 1] [NaN, NaN] True =
     [Fin (3 / 2), Fin 2]"
proof -
  let ?ins = "[[Fin 1, NaN], [Fin 3, Fin 2]]"
  have h1: "(2::nat) \<le> length ?ins" by simp
  have h2: "(2::nat) \<le> length [NaN, NaN]" by simp
  have h3: "(1::nat) < length ?ins" by simp
  have h4: "dne ([Fin 3, Fin 1] ! 1) ([Fin 3, Fin 1] ! 0)" by (simp add: dne_def)
  have h5: "\<exists>j. 1 \<le> j \<and> j < length ?ins \<and> dne ([Fin 3, Fin 1] ! j) ([Fin 3, Fin 1] ! 0)"
    using h4 by (intro exI [of _ 1]) simp
  have h6: "holds_doubles 2 ?ins"
    by (simp add: holds_doubles_def float_eval)
  have e1: "skip_mean_unweighted (column ?ins 0) = Fin 2"
    "skip_mean_unweighted (column ?ins 1) = Fin 2"
    by (simp_all add: result_eval float_eval)
  have e2: "skip_mean_weighted (zip (column ?ins 0) [Fin 3, Fin 1]) = Fin (3 / 2)"
    "skip_mean_weighted (zip (column ?ins 1) [Fin 3, Fin 1]) = Fin 2"
    by (simp_all add: skip_mean_weighted_def result_eval float_eval)
  show ?thesis
    using nan_skipping_average [OF h1 h2, of "[Fin 3, Fin 1]"] h3 h4 h5 h6 e1 e2
    by (simp add: upt_2 del: One_nat_def)
qed

text \<open>
  Claim C2, as stated: without NaN-skipping and with at least two arrays, a NaN in any
  array at a position makes the output NaN at that position. This fails for
  \<^verbatim>\<open>compute_weighted\<close>: an array of weight zero is passed over (lines 53 to 55), so its
  NaN never reaches the sum.
\<close>

theorem nan_propagation_counterexample:
  "isnan ([[NaN], [Fin 1]] ! 0 ! 0) \<and>
   compute_weighted 1 [[NaN], [Fin 1]] [Zero False, Fin 1] [Zero False] False = [Fin 1] \<and>
   \<not> isnan (compute_weighted 1 [[NaN], [Fin 1]] [Zero False, Fin 1] [Zero False] False ! 0)"
proof -
  have "compute_weighted 1 [[NaN], [Fin 1]] [Zero False, Fin 1] [Zero False] False = [Fin 1]"
    by (simp add: compute_weighted_eq upt_1 same_loop.simps result_eval float_eval
        del: One_nat_def)
  then show ?thesis by simp
qed

text \<open>
  Claim C2, amended: without NaN-skipping and with at least two arrays, a NaN at
  position \<open>i\<close> of any array makes output \<open>i\<close> of \<^verbatim>\<open>compute\<close> NaN, and a NaN at
  position \<open>i\<close> of an array whose weight is not zero makes output \<open>i\<close> of
  \<^verbatim>\<open>compute_weighted\<close> NaN.
\<close>

theorem nan_propagation:
  assumes "2 \<le> length ins" "n \<le> length out" "i < n" "j < length ins" "isnan (ins ! j ! i)"
  shows "compute n ins out False ! i = NaN \<and>
         (length w = length ins \<and> \<not> deq (w ! j) 0 \<longrightarrow>
          compute_weighted n ins w out False ! i = NaN)"
proof -
  have ne: "ins \<noteq> []" "length ins \<noteq> 1" using assms(1) by auto
  have u: "unweighted_result ins False i = NaN"
    using ne NaN_in_column [OF assms(4,5)]
    by (simp add: unweighted_result_def float_sum_def fold_plus_mem_NaN)
  have w: "compute_weighted_result ins w False i = NaN"
    if "length w = length ins" "\<not> deq (w ! j) 0"
    using ne u NaN_in_contributions [OF assms(4) that(1) assms(5) that(2)]
    by (simp add: compute_weighted_result_def weighted_result_def weighted_sum_contributions
        float_sum_def fold_plus_mem_NaN)
  show ?thesis
    using assms(2,3) u w by (simp add: compute_eq compute_weighted_eq nth_append)
qed

theorem nan_propagation_witness:
  "(2::nat) \<le> length [[Fin 1], [NaN]] \<and> (1::nat) \<le> length [Zero False] \<and> (0::nat) < 1 \<and>
   (1::nat) < length [[Fin 1], [NaN]] \<and> isnan ([[Fin 1], [NaN]] ! 1 ! 0) \<and>
   length [Fin 1, Fin 3] = length [[Fin 1], [NaN]] \<and> \<not> deq ([Fin 1, Fin 3] ! 1) 0 \<and>
   compute 1 [[Fin 1], [NaN]] [Zero False] False ! 0 = NaN \<and>
   compute_weighted 1 [[Fin 1], [NaN]] [Fin 1, Fin 3] [Zero False] False ! 0 = NaN"
proof -
  have h1: "(2::nat) \<le> length [[Fin 1], [NaN]]" by simp
  have h2: "(1::nat) \<le> length [Zero False]" by simp
  have h3: "(0::nat) < 1" by simp
  have h4: "(1::nat) < length [[Fin 1], [NaN]]" by simp
  have h5: "isnan ([[Fin 1], [NaN]] ! 1 ! 0)" by simp
  have h6: "length [Fin 1, Fin 3] = length [[Fin 1], [NaN]]" by simp
  have h7: "\<not> deq ([Fin 1, Fin 3] ! 1) 0" by (simp add: zero_double_def)
  show ?thesis
    using nan_propagation [OF h1 h2 h3 h4 h5, of "[Fin 1, Fin 3]"] h1 h2 h4 h5 h6 h7
    by simp
qed

text \<open>
  Claim C3. With a nonempty collection whose weights all compare equal to the first one,
  \<^verbatim>\<open>compute_weighted\<close> returns what the unweighted \<^verbatim>\<open>compute\<close> returns on the same arrays
  when the shared weight is not zero, and fills the output with NaN when it is zero
  (which is the case when every weight is zero).
\<close>

theorem equal_weights_dispatch:
  assumes "ins \<noteq> []" "n \<le> length out"
    and "\<forall>j. 1 \<le> j \<and> j < length ins \<longrightarrow> deq (w ! j) (w ! 0)"
  shows "compute_weighted n ins w out skip_nan =
           (if deq (w ! 0) 0 then replicate n NaN @ drop n out
            else compute n ins out skip_nan) \<and>
         compute_weighted_alloc n ins w skip_nan =
           (if deq (w ! 0) 0 then replicate n NaN else compute_alloc n ins skip_nan)"
proof -
  have same: "same_loop 1 (length ins) w"
    using assms(3) by (simp add: same_loop_iff)
  show ?thesis
    using assms(1,2) same
    by (simp add: compute_weighted_def compute_weighted_alloc_def compute_alloc_def fill_n_eq)
qed

theorem equal_weights_dispatch_witness:
  "[[Fin 1], [Fin 3]] \<noteq> [] \<and> (1::nat) \<le> length [NaN] \<and>
   deq ([Fin 2, Fin 2] ! 1) ([Fin 2, Fin 2] ! 0) \<and>
   deq ([Zero False, Zero True] ! 1) ([Zero False, Zero True] ! 0) \<and>
   compute_weighted 1 [[Fin 1], [Fin 3]] [Fin 2, Fin 2] [NaN] False =
     compute 1 [[Fin 1], [Fin 3]] [NaN] False \<and>
   compute 1 [[Fin 1], [Fin 3]] [NaN] False = [Fin 2] \<and>
   compute_weighted 1 [[Fin 1], [Fin 3]] [Zero False, Zero True] [NaN] False = [NaN] \<and>
   compute_weighted_alloc 1 [[Fin 1], [Fin 3]] [Fin 2, Fin 2] True = [Fin 2]"
proof -
  have h1: "[[Fin 1], [Fin 3]] \<noteq> []" by simp
  have h2: "(1::nat) \<le> length [NaN]" by simp
  have j: "1 \<le> j \<and> j < length [[Fin 1], [Fin 3]] \<longleftrightarrow> j = 1" for j :: nat
    by auto
  have h3: "\<forall>j. 1 \<le> j \<and> j < length [[Fin 1], [Fin 3]] \<longrightarrow>
              deq ([Fin 2, Fin 2] ! j) ([Fin 2, Fin 2] ! 0)"
    unfolding j by simp
  have h4: "\<forall>j. 1 \<le> j \<and> j < length [[Fin 1], [Fin 3]] \<longrightarrow>
              deq ([Zero False, Zero True] ! j) ([Zero False, Zero True] ! 0)"
    unfolding j by simp
  have c: "compute 1 [[Fin 1], [Fin 3]] [NaN] skip_nan = [Fin 2]" for skip_nan
    by (simp add: compute_eq upt_1 result_eval float_eval)
  have ca: "compute_alloc 1 [[Fin 1], [Fin 3]] skip_nan = [Fin 2]" for skip_nan
    by (simp add: compute_alloc_eq upt_1 result_eval float_eval)
  show ?thesis
    using equal_weights_dispatch [OF h1 h2 h3, of False]
      equal_weights_dispatch [OF h1 h2 h4, of False]
      equal_weights_dispatch [OF h1 h2 h3, of True]
      h3 h4 c ca
    by (simp add: zero_double_def)
qed

text \<open>
  Claim C4. With an empty collection of arrays, every one of the \<open>n\<close> output
  positions is NaN, for the unweighted and the weighted entry point, for the overloads
  that allocate the output, and for either value of \<^verbatim>\<open>skip_nan\<close>.
\<close>

theorem empty_collection_all_NaN:
  assumes "n \<le> length out"
  shows "compute n [] out skip_nan = replicate n NaN @ drop n out \<and>
         compute_weighted n [] w out skip_nan = replicate n NaN @ drop n out \<and>
         compute_alloc n [] skip_nan = replicate n NaN \<and>
         compute_weighted_alloc n [] w skip_nan = replicate n NaN"
proof -
  have u: "unweighted_result [] skip_nan = (\<lambda>i. NaN)"
    by (rule ext) (simp add: unweighted_result_def)
  have w: "compute_weighted_result [] w skip_nan = (\<lambda>i. NaN)"
    by (rule ext) (simp add: compute_weighted_result_def weighted_result_def)
  show ?thesis
    using assms
    by (simp add: compute_eq compute_weighted_eq compute_alloc_eq compute_weighted_alloc_eq
        u w map_const_upt)
qed

theorem empty_collection_all_NaN_witness:
  "(2::nat) \<le> length [Fin 1, Fin 2, Fin 3] \<and>
   compute 2 [] [Fin 1, Fin 2, Fin 3] True = [NaN, NaN, Fin 3] \<and>
   compute_weighted 2 [] [] [Fin 1, Fin 2, Fin 3] False = [NaN, NaN, Fin 3] \<and>
   compute_alloc 2 [] True = [NaN, NaN] \<and>
   compute_weighted_alloc 2 [] [] False = [NaN, NaN]"
proof -
  have h: "(2::nat) \<le> length [Fin 1, Fin 2, Fin 3]" by simp
  show ?thesis
    using empty_collection_all_NaN [OF h, of True "[]"]
      empty_collection_all_NaN [OF h, of False "[]"]
    by (simp add: numeral_2_eq_2)
qed

text \<open>
  Claim C5. With a single array, \<^verbatim>\<open>compute\<close> copies the first \<open>n\<close> elements of that
  array to the output, whatever they are and for either value of \<^verbatim>\<open>skip_nan\<close>;
  \<^verbatim>\<open>compute_weighted\<close> fills the output with NaN when the weight of the array compares
  equal to zero, and makes the same copy for any other weight.
\<close>

theorem single_array_copy:
  assumes "n \<le> length out" "n \<le> length a"
  shows "compute n [a] out skip_nan = take n a @ drop n out \<and>
         compute_weighted n [a] [w0] out skip_nan =
           (if deq w0 0 then replicate n NaN @ drop n out else take n a @ drop n out) \<and>
         compute_alloc n [a] skip_nan = take n a \<and>
         compute_weighted_alloc n [a] [w0] skip_nan =
           (if deq w0 0 then replicate n NaN else take n a)"
proof -
  have u: "unweighted_result [a] skip_nan = (\<lambda>i. a ! i)"
    by (rule ext) (simp add: unweighted_result_def)
  have same: "same_loop 1 (length [a]) [w0]"
    by (simp add: same_loop_iff)
  have w: "compute_weighted_result [a] [w0] skip_nan =
           (if deq w0 0 then (\<lambda>i. NaN) else (\<lambda>i. a ! i))"
    using same by (auto simp: compute_weighted_result_def u)
  show ?thesis
    using assms
    by (simp add: compute_eq compute_weighted_eq compute_alloc_eq compute_weighted_alloc_eq
        u w map_const_upt map_nth_take)
qed

theorem single_array_copy_witness:
  "(2::nat) \<le> length [Zero False, Zero False, Fin 9] \<and>
   (2::nat) \<le> length [Fin 7, NaN] \<and>
   compute 2 [[Fin 7, NaN]] [Zero False, Zero False, Fin 9] False = [Fin 7, NaN, Fin 9] \<and>
   compute_weighted 2 [[Fin 7, NaN]] [Fin 5] [Zero False, Zero False, Fin 9] True =
     [Fin 7, NaN, Fin 9] \<and>
   compute_weighted 2 [[Fin 7, NaN]] [Zero True] [Zero False, Zero False, Fin 9] True =
     [NaN, NaN, Fin 9] \<and>
   compute_alloc 2 [[Fin 7, NaN]] True = [Fin 7, NaN] \<and>
   compute_weighted_alloc 2 [[Fin 7, NaN]] [Zero False] False = [NaN, NaN]"
proof -
  have h1: "(2::nat) \<le> length [Zero False, Zero False, Fin 9]" by simp
  have h2: "(2::nat) \<le> length [Fin 7, NaN]" by simp
  show ?thesis
    using single_array_copy [OF h1 h2, of False "Fin 5"]
      single_array_copy [OF h1 h2, of True "Fin 5"]
      single_array_copy [OF h1 h2, of True "Zero True"]
      single_array_copy [OF h1 h2, of False "Zero False"]
    by (simp add: numeral_2_eq_2 zero_double_def)
qed

text \<open>
  Claim C6. Without NaN-skipping and with at least two arrays, every output position is
  the sum of its column multiplied by one and the same reciprocal: one over the number
  of arrays for \<^verbatim>\<open>compute\<close>, one over the sum of all the weights for \<^verbatim>\<open>compute_weighted\<close>
  on its weighted path, which is the path taken when some weight differs from the first.
\<close>

theorem global_reciprocal_divisor:
  assumes "2 \<le> length ins" "n \<le> length out"
  shows "compute n ins out False =
           map (\<lambda>i. float_sum (column ins i) * (1 / double_of_int (int (length ins)))) [0..<n]
             @ drop n out \<and>
         (length w = length ins \<and> (\<exists>j. 1 \<le> j \<and> j < length ins \<and> dne (w ! j) (w ! 0)) \<longrightarrow>
          compute_weighted n ins w out False =
            map (\<lambda>i. float_sum (contributions ins w i) * (1 / float_sum w)) [0..<n]
              @ drop n out)"
proof -
  have ne: "ins \<noteq> []" "length ins \<noteq> 1" using assms(1) by auto
  have u: "unweighted_result ins False =
           (\<lambda>i. float_sum (column ins i) * (1 / double_of_int (int (length ins))))"
    using ne by (auto simp: unweighted_result_def)
  have w: "compute_weighted_result ins w False =
           (\<lambda>i. float_sum (contributions ins w i) * (1 / float_sum w))"
    if "length w = length ins" "\<exists>j. 1 \<le> j \<and> j < length ins \<and> dne (w ! j) (w ! 0)"
  proof -
    have "\<not> same_loop 1 (length ins) w"
      using that(2) general_path by blast
    then show ?thesis
      using ne that(1)
      by (auto simp: compute_weighted_result_def weighted_result_def
          weighted_sum_contributions accumulate_def float_sum_def)
  qed
  show ?thesis
    using assms(2) u w by (simp add: compute_eq compute_weighted_eq)
qed

theorem global_reciprocal_divisor_witness:
  "(2::nat) \<le> length [[Fin 1], [Fin 3]] \<and> (1::nat) \<le> length [NaN] \<and>
   length [Fin 1, Fin 3] = length [[Fin 1], [Fin 3]] \<and>
   dne ([Fin 1, Fin 3] ! 1) ([Fin 1, Fin 3] ! 0) \<and>
   float_sum (column [[Fin 1], [Fin 3]] 0) = Fin 4 \<and>
   1 / double_of_int (int (length [[Fin 1], [Fin 3]])) = Fin (1 / 2) \<and>
   compute 1 [[Fin 1], [Fin 3]] [NaN] False = [Fin 2] \<and>
   float_sum (contributions [[Fin 1], [Fin 3]] [Fin 1, Fin 3] 0) = Fin 10 \<and>
   1 / float_sum [Fin 1, Fin 3] = Fin (1 / 4) \<and>
   compute_weighted 1 [[Fin 1], [Fin 3]] [Fin 1, Fin 3] [NaN] False = [Fin (5 / 2)]"
proof -
  have h1: "(2::nat) \<le> length [[Fin 1], [Fin 3]]" by simp
  have h2: "(1::nat) \<le> length [NaN]" by simp
  have h3: "length [Fin 1, Fin 3] = length [[Fin 1], [Fin 3]]" by simp
  have h4: "dne ([Fin 1, Fin 3] ! 1) ([Fin 1, Fin 3] ! 0)" by (simp add: dne_def)
  have h5: "\<exists>j. 1 \<le> j \<and> j < length [[Fin 1], [Fin 3]] \<and> dne ([Fin 1, Fin 3] ! j) ([Fin 1, Fin 3] ! 0)"
    using h4 by (intro exI [of _ 1]) simp
  have e1: "float_sum (column [[Fin 1], [Fin 3]] 0) = Fin 4"
    by (simp add: float_sum_def column_def float_eval)
  have e2: "1 / double_of_int (int (length [[Fin 1], [Fin 3]])) = Fin (1 / 2)"
    by (simp add: float_eval)
  have e3: "float_sum (contributions [[Fin 1], [Fin 3]] [Fin 1, Fin 3] 0) = Fin 10"
    by (simp add: float_sum_def contributions_def float_eval)
  have e4: "1 / float_sum [Fin 1, Fin 3] = Fin (1 / 4)"
    by (simp add: float_sum_def float_eval)
  have e5: "Fin 4 * Fin (1 / 2) = Fin 2" "Fin 10 * Fin (1 / 4) = Fin (5 / 2)"
    by (simp_all add: float_eval)
  show ?thesis
    using global_reciprocal_divisor [OF h1 h2, of "[Fin 1, Fin 3]"] h3 h4 h5 e1 e2 e3 e4 e5
    by (simp add: upt_1 del: One_nat_def)
qed

text \<open>
  Claim C7, as stated: the unweighted \<^verbatim>\<open>compute\<close> without NaN-skipping, on \<open>k\<close> arrays
  that all hold the same value at a position, returns exactly that value there. This
  fails for three arrays holding the double nearest to \<open>0.3\<close>: the sum of the three is
  rounded, its product with the rounded reciprocal of three is rounded again, and the
  result is the double \<open>0.29999999999999993\<close>.
\<close>

theorem constant_average_counterexample:
  "is_double (Fin (5404319552844595 / 18014398509481984)) \<and>
   compute 1 [[Fin (5404319552844595 / 18014398509481984)],
              [Fin (5404319552844595 / 18014398509481984)],
              [Fin (5404319552844595 / 18014398509481984)]] [Zero False] False =
     [Fin (2702159776422297 / 9007199254740992)] \<and>
   Fin (2702159776422297 / 9007199254740992) \<noteq> Fin (5404319552844595 / 18014398509481984)"
proof -
  let ?c = "Fin (5404319552844595 / 18014398509481984)"
  have d: "is_double ?c"
    by (simp add: float_eval)
  have s1: "0 + ?c = ?c"
    by (simp add: zero_double_def plus_double_def)
  have s2: "?c + ?c = Fin (5404319552844595 / 9007199254740992)"
    by (simp add: float_eval)
  have s3: "Fin (5404319552844595 / 9007199254740992) + ?c =
            Fin (2026619832316723 / 2251799813685248)"
    by (simp add: float_eval)
  have s4: "1 / double_of_int 3 = Fin (6004799503160661 / 18014398509481984)"
    by (simp add: float_eval)
  have s5: "Fin (2026619832316723 / 2251799813685248) *
            Fin (6004799503160661 / 18014398509481984) =
            Fin (2702159776422297 / 9007199254740992)"
    by (simp add: float_eval)
  have "unweighted_result [[?c], [?c], [?c]] False 0 =
        Fin (2702159776422297 / 9007199254740992)"
    by (simp add: unweighted_result_def float_sum_def column_def s1 s2 s3 s4 s5)
  then have "compute 1 [[?c], [?c], [?c]] [Zero False] False =
             [Fin (2702159776422297 / 9007199254740992)]"
    by (simp add: compute_eq upt_1)
  then show ?thesis
    using d by simp
qed

text \<open>
  Claim C7, amended: where all \<open>k\<close> arrays hold the value \<open>v\<close> at a position, the
  output there is \<open>v\<close> itself for \<open>k = 1\<close>, and for \<open>k \<ge> 2\<close> the product of the
  left-to-right sum of \<open>k\<close> copies of \<open>v\<close>, started at \<open>+0\<close>, and the reciprocal
  \<open>1 / k\<close>, each operation rounded. This is exactly \<open>v\<close> for \<open>k = 2\<close> when \<open>v\<close>
  is not \<open>-0\<close> and \<open>v + v\<close> does not overflow, and it is NaN for every \<open>k\<close> when
  \<open>v\<close> is NaN.
\<close>

theorem constant_column_average:
  assumes "n \<le> length out" "i < n" "ins \<noteq> []" "\<forall>a \<in> set ins. a ! i = v"
  shows "compute n ins out False ! i =
           (if length ins = 1 then v
            else float_sum (replicate (length ins) v) * (1 / double_of_int (int (length ins)))) \<and>
         (length ins = 2 \<and> is_double v \<and> v \<noteq> Zero True \<and> (is_finite v \<longrightarrow> is_finite (v + v)) \<longrightarrow>
          compute n ins out False ! i = v) \<and>
         (isnan v \<longrightarrow> compute n ins out False ! i = NaN)"
proof -
  have col: "column ins i = replicate (length ins) v"
    using assms(4) by (rule constant_column)
  have hd: "ins ! 0 ! i = v"
    using assms(3,4) by (cases ins) simp_all
  have res: "compute n ins out False ! i = unweighted_result ins False i"
    using assms(1,2) by (simp add: compute_eq nth_append)
  have gen: "unweighted_result ins False i =
      (if length ins = 1 then v
       else float_sum (replicate (length ins) v) * (1 / double_of_int (int (length ins))))"
    using assms(3) col hd by (simp add: unweighted_result_def)
  have two: "unweighted_result ins False i = v"
    if "length ins = 2" "is_double v" "v \<noteq> Zero True" "is_finite v \<longrightarrow> is_finite (v + v)"
  proof -
    have "replicate (length ins) v = [v, v]"
      using that(1) by (simp add: numeral_2_eq_2)
    then show ?thesis
      using gen that(1) average_of_two_equal [OF that(2,3,4)] reciprocal_of_2 by simp
  qed
  have nan: "unweighted_result ins False i = NaN" if "isnan v"
  proof -
    have v: "v = NaN" using that by (simp add: isnan_iff)
    have "NaN \<in> set (replicate (length ins) v)"
      using assms(3) v by simp
    then have "float_sum (replicate (length ins) v) = NaN"
      unfolding float_sum_def by (rule fold_plus_mem_NaN)
    then show ?thesis using gen v by simp
  qed
  show ?thesis
    using res gen two nan by simp
qed

theorem constant_column_average_witness:
  "(1::nat) \<le> length [Fin 9] \<and> (0::nat) < 1 \<and> [[Fin 3], [Fin 3]] \<noteq> [] \<and>
   is_double (Fin 3) \<and> Fin 3 \<noteq> Zero True \<and> is_finite (Fin 3 + Fin 3) \<and>
   compute 1 [[Fin 3], [Fin 3]] [Fin 9] False ! 0 = Fin 3 \<and>
   isnan NaN \<and>
   compute 1 [[NaN], [NaN], [NaN]] [Fin 9] False ! 0 = NaN \<and>
   compute 1 [[Fin 3]] [Fin 9] False ! 0 = Fin 3"
proof -
  have h1: "(1::nat) \<le> length [Fin 9]" by simp
  have h2: "(0::nat) < 1" by simp
  have a2: "[[Fin 3], [Fin 3]] \<noteq> []" "\<forall>a \<in> set [[Fin 3], [Fin 3]]. a ! 0 = Fin 3" by simp_all
  have a3: "[[NaN], [NaN], [NaN]] \<noteq> []" "\<forall>a \<in> set [[NaN], [NaN], [NaN]]. a ! 0 = NaN"
    by simp_all
  have a1: "[[Fin 3]] \<noteq> []" "\<forall>a \<in> set [[Fin 3]]. a ! 0 = Fin 3" by simp_all
  have d: "is_double (Fin 3)" "is_finite (Fin 3 + Fin 3)"
    by (simp_all add: float_eval)
  have p2: "length [[Fin 3], [Fin 3]] = 2 \<and> is_double (Fin 3) \<and> Fin 3 \<noteq> Zero True \<and>
            (is_finite (Fin 3) \<longrightarrow> is_finite (Fin 3 + Fin 3))"
    using d by simp
  have t2: "compute 1 [[Fin 3], [Fin 3]] [Fin 9] False ! 0 = Fin 3"
    using constant_column_average [OF h1 h2 a2] p2 by blast
  have t3: "compute 1 [[NaN], [NaN], [NaN]] [Fin 9] False ! 0 = NaN"
    using constant_column_average [OF h1 h2 a3] isnan.simps(1) by blast
  have l1: "length [[Fin 3]] = 1" by simp
  have t1: "compute 1 [[Fin 3]] [Fin 9] False ! 0 = Fin 3"
    using constant_column_average [OF h1 h2 a1, THEN conjunct1] by (simp only: l1 if_True simp_thms)
  show ?thesis
    using h1 h2 a2(1) d t1 t2 t3 by simp
qed

text \<open>
  Claim C8. The output of every entry point is a function of \<open>n\<close>, the arrays, the
  weights and the flag: two calls that agree on these write the same \<open>n\<close> values,
  whatever the two output buffers held before, and an allocating overload returns the
  values that the overload with an output pointer writes.
\<close>

theorem deterministic_output:
  assumes "n \<le> length out1" "n \<le> length out2"
  shows "take n (compute n ins out1 skip_nan) = take n (compute n ins out2 skip_nan) \<and>
         take n (compute_weighted n ins w out1 skip_nan) =
           take n (compute_weighted n ins w out2 skip_nan) \<and>
         compute_alloc n ins skip_nan = take n (compute n ins out1 skip_nan) \<and>
         compute_weighted_alloc n ins w skip_nan =
           take n (compute_weighted n ins w out1 skip_nan)"
  using assms
  by (simp add: compute_eq compute_weighted_eq compute_alloc_eq compute_weighted_alloc_eq)

theorem deterministic_output_witness:
  "(1::nat) \<le> length [NaN, Fin 5] \<and> (1::nat) \<le> length [Fin 1, Fin 2] \<and>
   take 1 (compute 1 [[Fin 1], [Fin 3]] [NaN, Fin 5] False) =
     take 1 (compute 1 [[Fin 1], [Fin 3]] [Fin 1, Fin 2] False) \<and>
   take 1 (compute_weighted 1 [[Fin 1], [Fin 3]] [Fin 1, Fin 3] [NaN, Fin 5] True) =
     take 1 (compute_weighted 1 [[Fin 1], [Fin 3]] [Fin 1, Fin 3] [Fin 1, Fin 2] True) \<and>
   compute_alloc 1 [[Fin 1], [Fin 3]] False =
     take 1 (compute 1 [[Fin 1], [Fin 3]] [NaN, Fin 5] False) \<and>
   compute_weighted_alloc 1 [[Fin 1], [Fin 3]] [Fin 1, Fin 3] True =
     take 1 (compute_weighted 1 [[Fin 1], [Fin 3]] [Fin 1, Fin 3] [NaN, Fin 5] True)"
proof -
  have h1: "(1::nat) \<le> length [NaN, Fin 5]" by simp
  have h2: "(1::nat) \<le> length [Fin 1, Fin 2]" by simp
  show ?thesis
    using deterministic_output [OF h1 h2, of "[[Fin 1], [Fin 3]]" False "[Fin 1, Fin 3]"]
      deterministic_output [OF h1 h2, of "[[Fin 1], [Fin 3]]" True "[Fin 1, Fin 3]"]
    by simp
qed

text \<open>
  Claim C9. With NaN-skipping and at least two arrays, an output position whose counter
  is zero when the accumulation ends is NaN: nothing was added to its sum, and the
  final division is zero by zero. The counter is the element of \<^verbatim>\<open>accumulated\<close> that
  the accumulation returns. For the weighted instantiation the weights are taken
  non-negative and finite, as documented.
\<close>

theorem zero_mass_gives_NaN:
  assumes "2 \<le> length ins" "n \<le> length out" "i < n"
  shows "(snd (accumulate_unweighted n ins True (fill_n out n 0, replicate n 0)) ! i = 0 \<longrightarrow>
          compute n ins out True ! i = NaN) \<and>
         (list_all weight_ok w \<and>
          deq (snd (accumulate_weighted n ins w True (fill_n out n 0, replicate n 0)) ! i) 0 \<longrightarrow>
          internal_compute_weighted n ins w out True ! i = NaN \<and>
          ((\<exists>j. 1 \<le> j \<and> j < length ins \<and> dne (w ! j) (w ! 0)) \<longrightarrow>
           compute_weighted n ins w out True ! i = NaN))"
proof -
  have ne: "ins \<noteq> []" "length ins \<noteq> 1" using assms(1) by auto
  have i: "i < length out" using assms(2,3) by simp
  let ?u = "fold (\<lambda>x. skip_step x 1) (column ins i) (0, 0::int)"
  let ?w = "fold (weighted_skip_step i) (zip ins w) (0, 0)"
  have ustate: "(fst (accumulate_unweighted n ins True (fill_n out n 0, replicate n 0)) ! i,
                 snd (accumulate_unweighted n ins True (fill_n out n 0, replicate n 0)) ! i) = ?u"
    using nth_accumulate_unweighted_skip [of i "fill_n out n 0" "replicate n 0" n ins] i assms(3)
    by (simp add: nth_fill_n)
  have wstate: "(fst (accumulate_weighted n ins w True (fill_n out n 0, replicate n 0)) ! i,
                 snd (accumulate_weighted n ins w True (fill_n out n 0, replicate n 0)) ! i) = ?w"
    using accumulate_weighted_skip [of n ins w "fill_n out n 0" "replicate n 0"] i assms(3)
    by (simp add: nth_fill_n)
  have u: "compute n ins out True ! i = NaN" if "snd ?u = 0"
  proof -
    have "fst ?u = 0"
      using skip_count_invariant [of 0 0 "column ins i"] that by simp
    then have "skip_mean_unweighted (column ins i) = NaN"
      using that by (simp add: skip_mean_unweighted_def split_beta double_of_int_0 zero_div_zero)
    then show ?thesis
      using assms(2,3) ne by (simp add: compute_eq nth_append unweighted_result_def)
  qed
  have w: "internal_compute_weighted n ins w out True ! i = NaN"
    if "list_all weight_ok w" "deq (snd ?w) 0"
  proof -
    have "mass_state ?w"
      using that(1) by (intro mass_state_fold) (simp_all add: zero_double_def)
    then have "fst ?w / snd ?w = NaN"
      using that(2) mass_state_zero [of "fst ?w" "snd ?w"] by simp
    then show ?thesis
      using assms(2,3) ne
      by (simp add: internal_compute_weighted_eq nth_append weighted_result_def split_beta)
  qed
  have g: "compute_weighted n ins w out True = internal_compute_weighted n ins w out True"
    if "\<exists>j. 1 \<le> j \<and> j < length ins \<and> dne (w ! j) (w ! 0)"
    using that general_path by (auto simp: compute_weighted_def)
  show ?thesis
    using u w g ustate wstate by (metis snd_conv)
qed

theorem zero_mass_gives_NaN_witness:
  "(2::nat) \<le> length [[NaN, Fin 1], [NaN, Fin 3]] \<and> (2::nat) \<le> length [Fin 7, Fin 7] \<and>
   (0::nat) < 2 \<and>
   snd (accumulate_unweighted 2 [[NaN, Fin 1], [NaN, Fin 3]] True
          (fill_n [Fin 7, Fin 7] 2 0, replicate 2 0)) = [0, 2] \<and>
   compute 2 [[NaN, Fin 1], [NaN, Fin 3]] [Fin 7, Fin 7] True ! 0 = NaN \<and>
   list_all weight_ok [Fin 3, Fin 1] \<and>
   snd (accumulate_weighted 2 [[NaN, Fin 1], [NaN, Fin 3]] [Fin 3, Fin 1] True
          (fill_n [Fin 7, Fin 7] 2 0, replicate 2 0)) = [Zero False, Fin 4] \<and>
   internal_compute_weighted 2 [[NaN, Fin 1], [NaN, Fin 3]] [Fin 3, Fin 1] [Fin 7, Fin 7] True ! 0
     = NaN \<and>
   dne ([Fin 3, Fin 1] ! 1) ([Fin 3, Fin 1] ! 0) \<and>
   compute_weighted 2 [[NaN, Fin 1], [NaN, Fin 3]] [Fin 3, Fin 1] [Fin 7, Fin 7] True ! 0 = NaN"
proof -
  let ?ins = "[[NaN, Fin 1], [NaN, Fin 3]]"
  have h1: "(2::nat) \<le> length ?ins" by simp
  have h2: "(2::nat) \<le> length [Fin 7, Fin 7]" by simp
  have h3: "(0::nat) < 2" by simp
  have c1: "snd (accumulate_unweighted 2 ?ins True (fill_n [Fin 7, Fin 7] 2 0, replicate 2 0))
            = [0, 2]"
    by (simp add: loop_eval float_eval)
  have c2: "snd (accumulate_weighted 2 ?ins [Fin 3, Fin 1] True
              (fill_n [Fin 7, Fin 7] 2 0, replicate 2 0)) = [Zero False, Fin 4]"
    by (simp add: loop_eval float_eval)
  have h4: "list_all weight_ok [Fin 3, Fin 1]"
    by (simp add: float_eval)
  have h5: "dne ([Fin 3, Fin 1] ! 1) ([Fin 3, Fin 1] ! 0)" by (simp add: dne_def)
  have h6: "\<exists>j. 1 \<le> j \<and> j < length ?ins \<and> dne ([Fin 3, Fin 1] ! j) ([Fin 3, Fin 1] ! 0)"
    using h5 by (intro exI [of _ 1]) simp
  show ?thesis
    using zero_mass_gives_NaN [OF h1 h2 h3, of "[Fin 3, Fin 1]"] c1 c2 h4 h5 h6
    by (simp add: zero_double_def)
qed

text \<open>
  Claim C10. Two calls of \<^verbatim>\<open>compute_weighted\<close> that differ only in the contents of
  arrays whose weight compares equal to zero return the same output, for either value of
  \<^verbatim>\<open>skip_nan\<close>.
\<close>

theorem zero_weight_arrays_ignored:
  assumes "n \<le> length out" "length ins1 = length ins2"
    and "\<forall>j < length ins1. \<not> deq (w ! j) 0 \<longrightarrow> ins1 ! j = ins2 ! j"
  shows "compute_weighted n ins1 w out skip_nan = compute_weighted n ins2 w out skip_nan \<and>
         compute_weighted_alloc n ins1 w skip_nan = compute_weighted_alloc n ins2 w skip_nan"
proof -
  have res: "compute_weighted_result ins1 w skip_nan i = compute_weighted_result ins2 w skip_nan i"
    for i
  proof (cases "ins1 \<noteq> [] \<and> same_loop 1 (length ins1) w")
    case True
    show ?thesis
    proof (cases "deq (w ! 0) 0")
      case z: True
      then show ?thesis
        using True assms(2) by (auto simp: compute_weighted_result_def)
    next
      case nz: False
      have "\<not> deq (w ! j) 0" if "j < length ins1" for j
      proof (cases "j = 0")
        case True
        then show ?thesis using nz by simp
      next
        case False
        then have "deq (w ! j) (w ! 0)"
          using True that by (simp add: same_loop_iff)
        then show ?thesis
          using nz deq_zero_trans by blast
      qed
      then have "ins1 = ins2"
        using assms(2,3) by (intro nth_equalityI) simp_all
      then show ?thesis by simp
    qed
  next
    case False
    have len1: "ins1 ! 0 = ins2 ! 0" if "length ins1 = 1" "\<not> deq (w ! 0) 0"
      using assms(3) that by simp
    have "weighted_result ins1 w skip_nan i = weighted_result ins2 w skip_nan i"
      using assms(2) zip_zero_weight_irrelevant [OF assms(2,3)] len1
      by (auto simp: weighted_result_def)
    then show ?thesis
      using False assms(2) by (auto simp: compute_weighted_result_def)
  qed
  show ?thesis
    using assms(1) res by (simp add: compute_weighted_eq compute_weighted_alloc_eq)
qed

theorem zero_weight_arrays_ignored_witness:
  "(1::nat) \<le> length [Zero False] \<and>
   length [[NaN], [Fin 1], [Fin 3]] = length [[Inf True], [Fin 1], [Fin 3]] \<and>
   compute_weighted 1 [[NaN], [Fin 1], [Fin 3]] [Zero False, Fin 1, Fin 3] [Zero False] False =
     compute_weighted 1 [[Inf True], [Fin 1], [Fin 3]] [Zero False, Fin 1, Fin 3] [Zero False] False \<and>
   compute_weighted 1 [[Inf True], [Fin 1], [Fin 3]] [Zero False, Fin 1, Fin 3] [Zero False] False =
     [Fin (5 / 2)] \<and>
   compute_weighted 1 [[NaN], [Fin 1], [Fin 3]] [Zero False, Fin 1, Fin 3] [Zero False] True =
     compute_weighted 1 [[Inf True], [Fin 1], [Fin 3]] [Zero False, Fin 1, Fin 3] [Zero False] True \<and>
   compute_weighted 1 [[Inf True], [Fin 1], [Fin 3]] [Zero False, Fin 1, Fin 3] [Zero False] True =
     [Fin (5 / 2)]"
proof -
  have h1: "(1::nat) \<le> length [Zero False]" by simp
  have h2: "length [[NaN], [Fin 1], [Fin 3]] = length [[Inf True], [Fin 1], [Fin 3]]" by simp
  have h3: "\<forall>j < length [[NaN], [Fin 1], [Fin 3]].
      \<not> deq ([Zero False, Fin 1, Fin 3] ! j) 0 \<longrightarrow>
      [[NaN], [Fin 1], [Fin 3]] ! j = [[Inf True], [Fin 1], [Fin 3]] ! j"
    by (simp add: less_Suc_eq zero_double_def numeral_3_eq_3)
  have e: "compute_weighted 1 [[Inf True], [Fin 1], [Fin 3]] [Zero False, Fin 1, Fin 3]
             [Zero False] skip_nan = [Fin (5 / 2)]" for skip_nan
    by (simp add: compute_weighted_eq upt_1 same_loop.simps result_eval float_eval del: One_nat_def)
  show ?thesis
    using zero_weight_arrays_ignored [OF h1 h2 h3, of False]
      zero_weight_arrays_ignored [OF h1 h2 h3, of True] e
    by simp
qed

end
